theory Spec2Isabelle
  imports Main "HOL-Library.Multiset" "HOL-Library.Sublist"
begin

section \<open>Strings, character classes and the two regular expressions\<close>

text \<open>
  A Go string is a byte sequence; it is modelled as a \<open>string\<close> (a list of 8-bit
  characters). The regular expressions of \<open>queries.go\<close> only name ASCII characters, and
  the one class that accepts other input, \<open>[^:]\<close>, is followed by an ASCII colon, so
  matching byte by byte finds the same submatches and the same match ends as matching
  rune by rune.
\<close>

definition letter :: "char \<Rightarrow> bool" where
  \<comment> \<open>the class \<open>[A-Za-z]\<close>\<close>
  "letter c = (let n = (of_char c :: nat) in (65 \<le> n \<and> n \<le> 90) \<or> (97 \<le> n \<and> n \<le> 122))"

definition word_char :: "char \<Rightarrow> bool" where
  \<comment> \<open>the class \<open>[A-Za-z0-9_]\<close>\<close>
  "word_char c = (let n = (of_char c :: nat) in letter c \<or> (48 \<le> n \<and> n \<le> 57) \<or> n = 95)"

definition quote :: "char \<Rightarrow> bool" where
  \<comment> \<open>the class \<open>['"]\<close>\<close>
  "quote c = (c = CHR 0x27 \<or> c = CHR 0x22)"

definition opt_quote :: "string \<Rightarrow> string \<times> string" where
  \<comment> \<open>\<open>['"]?\<close> at the head of a string: the quote taken (greedily) and what follows it\<close>
  "opt_quote s = (case s of [] \<Rightarrow> ([], []) | c # r \<Rightarrow> if quote c then ([c], r) else ([], s))"

text \<open>
  \<open>psqlVarRE = [^:]:['"]?([A-Za-z][A-Za-z0-9_]*)['"]?\<close> matched at the head of a string:
  the whole match, submatch 1 and the text after the match. The quantifiers are greedy.
  Giving back the first optional quote cannot help, since the next character would have
  to be a letter and would be that quote; the identifier run and the last optional quote
  are followed by nothing, so the longest choice always succeeds.
\<close>

fun psqlVarRE_at :: "string \<Rightarrow> (string \<times> string \<times> string) option" where
  "psqlVarRE_at (c # d # s) =
     (if c \<noteq> CHR '':'' \<and> d = CHR '':'' then
        (let (q1, s1) = opt_quote s in
         case s1 of
           [] \<Rightarrow> None
         | l # s2 \<Rightarrow>
             if letter l then
               (let name = l # takeWhile word_char s2;
                    (q2, rest) = opt_quote (dropWhile word_char s2)
                in Some (c # d # q1 @ name @ q2, name, rest))
             else None)
      else None)"
| "psqlVarRE_at _ = None"

lemma opt_quote_length:
  "opt_quote s = (q, r) \<Longrightarrow> length r \<le> length s"
  by (cases s) (auto simp: opt_quote_def split: if_splits)

lemma psqlVarRE_at_shorter:
  "psqlVarRE_at s = Some (full, name, rest) \<Longrightarrow> length rest < length s"
proof (cases s rule: psqlVarRE_at.cases)
  case (1 c d t)
  assume m: "psqlVarRE_at s = Some (full, name, rest)"
  obtain q1 s1 where o1: "opt_quote t = (q1, s1)" by (cases "opt_quote t")
  then have l1: "length s1 \<le> length t" by (rule opt_quote_length)
  from m 1 o1 obtain l s2 where s1: "s1 = l # s2"
    by (cases s1) (auto split: if_splits)
  obtain q2 r2 where o2: "opt_quote (dropWhile word_char s2) = (q2, r2)"
    by (cases "opt_quote (dropWhile word_char s2)")
  then have l2: "length r2 \<le> length (dropWhile word_char s2)" by (rule opt_quote_length)
  have l3: "length (dropWhile word_char s2) \<le> length s2"
    by (simp add: length_dropWhile_le)
  from m 1 o1 s1 o2 have "rest = r2" by (auto split: if_splits)
  with l1 l2 l3 s1 1 show ?thesis by simp
qed simp_all

text \<open>
  \<open>FindAllStringSubmatch(query, -1)\<close>: the successive leftmost matches, none overlapping
  an earlier one. Each match is given with its byte offset in the text (\<open>i\<close> is the
  offset of the remaining text), its whole text and its submatch 1. A match is never
  empty, so the search resumes right after it.
\<close>

function allMatches :: "nat \<Rightarrow> string \<Rightarrow> (nat \<times> string \<times> string) list" where
  "allMatches i [] = []"
| "allMatches i (c # s) =
     (case psqlVarRE_at (c # s) of
        Some (full, name, rest) \<Rightarrow> (i, full, name) # allMatches (i + length full) rest
      | None \<Rightarrow> allMatches (Suc i) s)"
  by pat_completeness auto
termination
  by (relation "measure (\<lambda>(i, s). length s)") (auto dest: psqlVarRE_at_shorter)

definition FindAllStringSubmatch :: "string \<Rightarrow> (string \<times> string) list" where
  "FindAllStringSubmatch s = map snd (allMatches 0 s)"

text \<open>
  The rewrite pattern of \<open>NewQuery\<close>, \<open>:["']?NAME["']?\<close>, where \<open>NAME\<close> is the
  parameter name spliced in by \<open>Sprintf\<close>. The model covers names made of the characters
  \<open>[A-Za-z0-9_]\<close> only, for which the spliced text is a literal; for any other name
  \<open>Compile\<close> is taken to fail, and \<open>NewQuery\<close> drops the error and keeps a nil
  \<open>*Regexp\<close>, on which \<open>ReplaceAllLiteralString\<close> panics.
\<close>

datatype failure = NilRegexp | IndexOutOfRange

definition Compile :: "string \<Rightarrow> string option" where
  "Compile name = (if list_all word_char name then Some name else None)"

text \<open>
  The compiled pattern matched at the head of a string; the result is the text after the
  match. The first optional quote is tried taken, then given back.
\<close>

definition rewriteRE_at :: "string \<Rightarrow> string \<Rightarrow> string option" where
  "rewriteRE_at name s =
     (case s of
        [] \<Rightarrow> None
      | c # s1 \<Rightarrow>
          if c = CHR '':'' then
            (let (q1, s2) = opt_quote s1 in
             if prefix name s2 then Some (snd (opt_quote (drop (length name) s2)))
             else if prefix name s1 then Some (snd (opt_quote (drop (length name) s1)))
             else None)
          else None)"

lemma rewriteRE_at_shorter:
  "rewriteRE_at name s = Some rest \<Longrightarrow> length rest < length s"
proof (cases s)
  case Nil
  assume "rewriteRE_at name s = Some rest"
  with Nil show ?thesis by (simp add: rewriteRE_at_def)
next
  case (Cons c s1)
  assume m: "rewriteRE_at name s = Some rest"
  obtain q1 s2 where o1: "opt_quote s1 = (q1, s2)" by (cases "opt_quote s1")
  then have l1: "length s2 \<le> length s1" by (rule opt_quote_length)
  have l2: "length (snd (opt_quote t)) \<le> length t" for t
    using opt_quote_length [of t "fst (opt_quote t)" "snd (opt_quote t)"] by simp
  from m Cons o1 have "rest = snd (opt_quote (drop (length name) s2))
      \<or> rest = snd (opt_quote (drop (length name) s1))"
    by (auto simp: rewriteRE_at_def split: if_splits)
  then have "length rest \<le> length s1"
  proof
    assume "rest = snd (opt_quote (drop (length name) s2))"
    then have "length rest \<le> length (drop (length name) s2)"
      using l2 [of "drop (length name) s2"] by simp
    with l1 show ?thesis by simp
  next
    assume "rest = snd (opt_quote (drop (length name) s1))"
    then have "length rest \<le> length (drop (length name) s1)"
      using l2 [of "drop (length name) s1"] by simp
    then show ?thesis by simp
  qed
  with Cons show ?thesis by simp
qed

text \<open>
  \<open>r.ReplaceAllLiteralString(src, repl)\<close> for the compiled pattern of \<open>name\<close>: every
  leftmost non-overlapping match is replaced by \<open>repl\<close>, taken literally.
\<close>

function ReplaceAllLiteralString :: "string \<Rightarrow> string \<Rightarrow> string \<Rightarrow> string" where
  "ReplaceAllLiteralString name [] repl = []"
| "ReplaceAllLiteralString name (c # s) repl =
     (case rewriteRE_at name (c # s) of
        Some rest \<Rightarrow> repl @ ReplaceAllLiteralString name rest repl
      | None \<Rightarrow> c # ReplaceAllLiteralString name s repl)"
  by pat_completeness auto
termination
  by (relation "measure (\<lambda>(name, s, repl). length s)") (auto dest: rewriteRE_at_shorter)

text \<open>\<open>fmt.Sprintf("$%d", ord)\<close>: a dollar sign and the decimal digits of \<open>ord\<close>.\<close>

function digits :: "nat \<Rightarrow> string" where
  "digits n = (if n < 10 then [''0123456789'' ! n] else digits (n div 10) @ [''0123456789'' ! (n mod 10)])"
  by pat_completeness auto
termination
  by (relation "measure id") auto

declare digits.simps [simp del]

definition Sprintf_d :: "int \<Rightarrow> string" where
  "Sprintf_d i = (if i < 0 then CHR ''-'' # digits (nat (- i)) else digits (nat i))"

definition Sprintf_ord :: "int \<Rightarrow> string" where
  "Sprintf_ord ord = CHR ''$'' # Sprintf_d ord"

section \<open>The parameter resolver: \<open>NewQuery\<close> and \<open>Prepare\<close>\<close>

text \<open>
  A Go map is kept as the list of its entries, keys distinct, in the order of their
  insertion; a lookup is \<open>map_of\<close>. The ordinals are Go \<open>int\<close>s, modelled
  as unbounded integers: \<open>position\<close> counts distinct names of one text and cannot reach
  the 64-bit limit. A \<open>range\<close> loop over a map visits the entries in an order that the
  language leaves open, so every such loop of the source takes the visiting order as an
  argument, and \<open>range_order\<close> says that an order visits each entry exactly once.
\<close>

type_synonym mapping = "(string \<times> int) list"

definition range_order :: "('k \<times> 'v) list \<Rightarrow> ('k \<times> 'v) list \<Rightarrow> bool" where
  "range_order m its = (mset its = mset m)"

record Query =
  Raw :: string
  OrdinalQuery :: string
  Mapping :: mapping

definition reservedNames :: "string list" where
  "reservedNames = [''MI'', ''SS'']"

fun isReservedName_in :: "string list \<Rightarrow> string \<Rightarrow> bool" where
  "isReservedName_in [] name = False"
| "isReservedName_in (res # rs) name = (if name = res then True else isReservedName_in rs name)"

definition isReservedName :: "string \<Rightarrow> bool" where
  "isReservedName name = isReservedName_in reservedNames name"

text \<open>The first loop of \<open>NewQuery\<close>, over the matches, with \<open>mapping\<close> and \<open>position\<close>.\<close>

fun ordinals :: "(string \<times> string) list \<Rightarrow> mapping \<Rightarrow> int \<Rightarrow> mapping \<times> int" where
  "ordinals [] mapping position = (mapping, position)"
| "ordinals (match # matches) mapping position =
     (let variable = snd match in
      if isReservedName variable then ordinals matches mapping position
      else if map_of mapping variable = None
        then ordinals matches (mapping @ [(variable, position)]) (position + 1)
        else ordinals matches mapping position)"

definition mapping_of :: "string \<Rightarrow> mapping" where
  "mapping_of query = fst (ordinals (FindAllStringSubmatch query) [] 1)"

text \<open>The second loop of \<open>NewQuery\<close>, over the entries of \<open>mapping\<close> in visiting order.\<close>

fun rewrite :: "mapping \<Rightarrow> string \<Rightarrow> failure + string" where
  "rewrite [] query = Inr query"
| "rewrite (entry # its) query =
     (case Compile (fst entry) of
        None \<Rightarrow> Inl NilRegexp
      | Some r \<Rightarrow> rewrite its (ReplaceAllLiteralString r query (Sprintf_ord (snd entry))))"

definition NewQuery :: "mapping \<Rightarrow> string \<Rightarrow> failure + Query" where
  \<comment> \<open>\<open>its\<close>: the entries of \<open>mapping\<close> in the order the rewrite loop visits them\<close>
  "NewQuery its query =
     (case rewrite its query of
        Inl e \<Rightarrow> Inl e
      | Inr query' \<Rightarrow>
          Inr \<lparr>Raw = query, OrdinalQuery = query', Mapping = mapping_of query\<rparr>)"

text \<open>
  The older version of \<open>queries.go\<close> (the second one in the file) has no reserved names:
  the first loop of its \<open>NewQuery\<close> gives an ordinal to every name discovered, and the
  rest of the function is the same.
\<close>

fun ordinals_old :: "(string \<times> string) list \<Rightarrow> mapping \<Rightarrow> int \<Rightarrow> mapping \<times> int" where
  "ordinals_old [] mapping position = (mapping, position)"
| "ordinals_old (match # matches) mapping position =
     (let variable = snd match in
      if map_of mapping variable = None
        then ordinals_old matches (mapping @ [(variable, position)]) (position + 1)
        else ordinals_old matches mapping position)"

definition mapping_of_old :: "string \<Rightarrow> mapping" where
  "mapping_of_old query = fst (ordinals_old (FindAllStringSubmatch query) [] 1)"

definition NewQuery_old :: "mapping \<Rightarrow> string \<Rightarrow> failure + Query" where
  "NewQuery_old its query =
     (case rewrite its query of
        Inl e \<Rightarrow> Inl e
      | Inr query' \<Rightarrow>
          Inr \<lparr>Raw = query, OrdinalQuery = query', Mapping = mapping_of_old query\<rparr>)"

text \<open>
  \<open>Prepare\<close>. \<open>its\<close> is the order in which \<open>range q.Mapping\<close> fills \<open>params\<close>; \<open>nil\<close>
  is \<open>None\<close>, which is also what a lookup of a missing key in \<open>args\<close> gives.
  \<open>sort.Slice\<close> is not stable; its result is determined when the ordinals are distinct,
  which is the case for the mapping of every result of \<open>NewQuery\<close>, and there it is the
  result of \<open>sort_key\<close>. A write \<open>components[i]\<close> past the end panics.
\<close>

fun fill :: "nat \<Rightarrow> mapping \<Rightarrow> (string \<rightharpoonup> 'v) \<Rightarrow> 'v option list \<Rightarrow> failure + 'v option list" where
  "fill i [] args components = Inr components"
| "fill i (param # params) args components =
     (if i < length components
      then fill (Suc i) params args (components[i := args (fst param)])
      else Inl IndexOutOfRange)"

definition Prepare :: "mapping \<Rightarrow> Query \<Rightarrow> (string \<rightharpoonup> 'v) \<Rightarrow> failure + 'v option list" where
  "Prepare its q args =
     (let components = replicate (length (Mapping q)) None;
          params = sort_key snd its
      in fill 0 params args components)"

section \<open>The query store\<close>

datatype error = AlreadyExists string | NotFound string

type_synonym store = "string \<rightharpoonup> Query"

definition Query_of :: "store \<Rightarrow> string \<Rightarrow> error + Query" where
  \<comment> \<open>the method \<open>Query\<close> of the store\<close>
  "Query_of s name = (case s name of None \<Rightarrow> Inl (NotFound name) | Some q \<Rightarrow> Inr q)"

text \<open>
  The loop of \<open>loadQueriesFromFile\<close>, which is the same in both versions of
  \<open>queries.go\<close>. \<open>newQueries\<close> is the scanner's result as the list of its entries in
  the order the loop visits them. \<open>newQuery name query\<close> is the result of the call
  \<open>NewQuery(query)\<close> made for the block \<open>name\<close>: the two versions of the file differ in
  \<open>NewQuery\<close> (the older one has no test for reserved names), and the result of a call
  depends on the visiting order of its rewrite loop; for the current version it is
  \<open>NewQuery its query\<close> for the order \<open>its\<close> of that call. The result of the loop is the
  error returned (if any) and the store as the call leaves it.
\<close>

fun loadQueriesFromFile ::
  "(string \<Rightarrow> string \<Rightarrow> failure + Query) \<Rightarrow> (string \<times> string) list \<Rightarrow> store
     \<Rightarrow> failure + (error option \<times> store)" where
  "loadQueriesFromFile newQuery [] s = Inr (None, s)"
| "loadQueriesFromFile newQuery ((name, query) # newQueries) s =
     (if s name \<noteq> None then Inr (Some (AlreadyExists name), s)
      else case newQuery name query of
             Inl e \<Rightarrow> Inl e
           | Inr q \<Rightarrow> loadQueriesFromFile newQuery newQueries (s(name \<mapsto> q)))"

section \<open>The block scanner (definitions)\<close>

text \<open>
  Modelled from the spec: the block scanner (\<open>Scanner.Run\<close>, \<open>scanBlocks\<close> in the
  specification). \<open>loadQueriesFromFile\<close> calls it, but the file that defines the type
  \<open>Scanner\<close> is not among the sources, so the definitions below follow sections 4.1 and
  6 of the specification: header recognition after trimming, one open block with its
  buffer of lines, a block finalised at the next header and at the end of input, its
  lines joined with a newline, lines before the first header dropped, a later block of
  the same name replacing the earlier one. A trimmed header line is read as: the dashes,
  any white space, the token \<open>name:\<close>, any white space, and a run of characters other
  than white space that reaches the end of the line.
\<close>

definition space :: "char \<Rightarrow> bool" where
  "space c = (c \<in> {CHR '' '', CHR 0x09, CHR 0x0A, CHR 0x0B, CHR 0x0C, CHR 0x0D})"

definition trim :: "string \<Rightarrow> string" where
  "trim s = rev (dropWhile space (rev (dropWhile space s)))"

definition header :: "string \<Rightarrow> string option" where
  \<comment> \<open>Modelled from the spec: header recognition of the scanner, whose file is missing\<close>
  "header line =
     (let t = trim line in
      if prefix ''--'' t then
        (let t1 = dropWhile space (drop 2 t) in
         if prefix ''name:'' t1 then
           (let t2 = dropWhile space (drop 5 t1);
                ident = takeWhile (\<lambda>c. \<not> space c) t2
            in if ident \<noteq> [] \<and> dropWhile (\<lambda>c. \<not> space c) t2 = [] then Some ident else None)
         else None)
      else None)"

fun join :: "string list \<Rightarrow> string" where
  "join [] = []"
| "join [l] = l"
| "join (l # ls) = l @ CHR 0x0A # join ls"

datatype scan_state = NoBlockOpen | BlockOpen string "string list"

fun finalize :: "scan_state \<Rightarrow> (string \<rightharpoonup> string) \<Rightarrow> (string \<rightharpoonup> string)" where
  "finalize NoBlockOpen result = result"
| "finalize (BlockOpen name buffer) result = result(name \<mapsto> join buffer)"

text \<open>
  Modelled from the spec: the single pass of the scanner (its file is missing), with the
  open block as state and the mapping built so far.
\<close>

fun scan :: "scan_state \<Rightarrow> (string \<rightharpoonup> string) \<Rightarrow> string list \<Rightarrow> (string \<rightharpoonup> string)" where
  "scan st result [] = finalize st result"
| "scan st result (line # lines) =
     (case header line of
        Some name \<Rightarrow> scan (BlockOpen name []) (finalize st result) lines
      | None \<Rightarrow>
          (case st of
             NoBlockOpen \<Rightarrow> scan NoBlockOpen result lines
           | BlockOpen name buffer \<Rightarrow> scan (BlockOpen name (buffer @ [line])) result lines))"

definition scanBlocks :: "string \<Rightarrow> string list \<Rightarrow> (string \<rightharpoonup> string)" where
  \<comment> \<open>Modelled from the spec: \<open>scanBlocks\<close> (\<open>Scanner.Run\<close>, whose file is missing)\<close>
  "scanBlocks label lines = scan NoBlockOpen Map.empty lines"

text \<open>
  The lines that \<open>bufio.NewScanner(r)\<close> hands to the scanner (the default split function
  \<open>ScanLines\<close> of the Go library): the text cut at every newline, one trailing carriage
  return dropped from each line, and a last line without newline kept when it is not
  empty.
\<close>

definition dropCR :: "string \<Rightarrow> string" where
  "dropCR s = (if s \<noteq> [] \<and> last s = CHR 0x0D then butlast s else s)"

fun ScanLines :: "string \<Rightarrow> string \<Rightarrow> string list" where
  "ScanLines cur [] = (if cur = [] then [] else [dropCR cur])"
| "ScanLines cur (c # s) =
     (if c = CHR 0x0A then dropCR cur # ScanLines [] s else ScanLines (cur @ [c]) s)"

section \<open>Notions of the specification\<close>

text \<open>
  The names a text makes eligible for an ordinal: submatch 1 of every match of the
  discovery pattern, the reserved names left out, in the order of the matches.
\<close>

definition eligible :: "string \<Rightarrow> string list" where
  "eligible raw = filter (\<lambda>v. \<not> isReservedName v) (map snd (FindAllStringSubmatch raw))"

text \<open>A list without its repetitions, every element kept where it first occurs.\<close>

fun first_occurrences :: "'a list \<Rightarrow> 'a list" where
  "first_occurrences [] = []"
| "first_occurrences (x # xs) = x # filter (\<lambda>y. y \<noteq> x) (first_occurrences xs)"

text \<open>
  The shape of a placeholder: \<open>quote_opt\<close> is an optional quote, \<open>is_identifier\<close> a letter
  followed by letters, digits and underscores, \<open>boundary\<close> a text that does not go on
  with an identifier character. \<open>placeholder full name suf\<close> says that \<open>full\<close>, followed
  by \<open>suf\<close>, is a match of the discovery pattern with submatch \<open>name\<close>.
\<close>

definition quote_opt :: "string \<Rightarrow> bool" where
  "quote_opt q = (length q \<le> 1 \<and> list_all quote q)"

definition boundary :: "string \<Rightarrow> bool" where
  "boundary s = (case s of [] \<Rightarrow> True | c # r \<Rightarrow> \<not> word_char c)"

definition is_identifier :: "string \<Rightarrow> bool" where
  "is_identifier name = (case name of [] \<Rightarrow> False | l # r \<Rightarrow> letter l \<and> list_all word_char r)"

definition placeholder :: "string \<Rightarrow> string \<Rightarrow> string \<Rightarrow> bool" where
  "placeholder full name suf =
     (\<exists>c q1 q2. full = c # CHR '':'' # q1 @ name @ q2 \<and> c \<noteq> CHR '':''
        \<and> quote_opt q1 \<and> quote_opt q2 \<and> is_identifier name \<and> boundary (q2 @ suf))"

section \<open>Character classes and matches of the discovery pattern\<close>


lemma letter_word_char: "letter c \<Longrightarrow> word_char c"
  by (simp add: word_char_def Let_def)

lemma quote_not_word_char: "quote c \<Longrightarrow> \<not> word_char c"
  by (auto simp: quote_def word_char_def letter_def Let_def)

lemma colon_not_word_char [simp]: "\<not> word_char CHR '':''"
  by (simp add: word_char_def letter_def Let_def)

lemma colon_not_quote [simp]: "\<not> quote CHR '':''"
  by (simp add: quote_def)

lemma identifier_word_chars: "is_identifier name \<Longrightarrow> list_all word_char name \<and> name \<noteq> []"
  by (cases name) (auto simp: is_identifier_def letter_word_char)

lemma opt_quoteD:
  assumes "opt_quote s = (q, r)"
  shows "s = q @ r \<and> quote_opt q \<and> (q = [] \<longrightarrow> (case r of [] \<Rightarrow> True | c # _ \<Rightarrow> \<not> quote c))"
  using assms by (cases s) (auto simp: opt_quote_def quote_opt_def split: if_splits)

lemma boundary_dropWhile: "boundary (dropWhile word_char s)"
proof (cases "dropWhile word_char s")
  case Nil
  show ?thesis unfolding Nil by (simp add: boundary_def)
next
  case (Cons c r)
  then have "\<not> word_char (hd (dropWhile word_char s))"
    using hd_dropWhile [of word_char s] by simp
  with Cons show ?thesis by (simp add: boundary_def)
qed

lemma boundary_quote_opt:
  assumes "opt_quote t = (q, r)" and "boundary t"
  shows "boundary (q @ r)"
  using opt_quoteD [OF assms(1)] assms(2) by simp

lemma psqlVarRE_atD:
  assumes "psqlVarRE_at s = Some (full, name, rest)"
  shows "s = full @ rest \<and> placeholder full name rest"
proof (cases s rule: psqlVarRE_at.cases)
  case (1 c d t)
  obtain q1 s1 where o1: "opt_quote t = (q1, s1)" by (cases "opt_quote t")
  from assms 1 o1 obtain l s2 where s1: "s1 = l # s2"
    by (cases s1) (auto split: if_splits)
  obtain q2 r2 where o2: "opt_quote (dropWhile word_char s2) = (q2, r2)"
    by (cases "opt_quote (dropWhile word_char s2)")
  from assms 1 o1 s1 o2
  have f: "c \<noteq> CHR '':''" "d = CHR '':''" "letter l" "full = c # d # q1 @ name @ q2"
    "name = l # takeWhile word_char s2" "rest = r2"
    by (auto split: if_splits)
  have t: "t = q1 @ s1" and q1: "quote_opt q1" using opt_quoteD [OF o1] by simp_all
  have d: "dropWhile word_char s2 = q2 @ r2" and q2: "quote_opt q2"
    using opt_quoteD [OF o2] by simp_all
  have b: "boundary (q2 @ r2)" using boundary_dropWhile [of s2] d by simp
  have "s2 = takeWhile word_char s2 @ q2 @ r2"
    using takeWhile_dropWhile_id [of word_char s2] d by simp
  then have "s = full @ rest" using 1 f t s1 by simp
  moreover have "is_identifier name"
    using f by (simp add: is_identifier_def list_all_iff) (meson set_takeWhileD)
  ultimately show ?thesis unfolding placeholder_def using f q1 q2 b by blast
qed (use assms in simp_all)

lemma allMatchesD:
  "(j, full, name) \<in> set (allMatches i s) \<Longrightarrow>
     \<exists>pre suf. s = pre @ full @ suf \<and> j = i + length pre \<and> placeholder full name suf"
proof (induction i s rule: allMatches.induct)
  case (1 i)
  then show ?case by simp
next
  case (2 i c s)
  show ?case
  proof (cases "psqlVarRE_at (c # s)")
    case None
    with "2.prems" have mem: "(j, full, name) \<in> set (allMatches (Suc i) s)" by simp
    from "2.IH"(1) [OF None mem] obtain pre suf where
      "s = pre @ full @ suf" "j = Suc i + length pre" "placeholder full name suf"
      by blast
    then have "c # s = (c # pre) @ full @ suf \<and> j = i + length (c # pre)
        \<and> placeholder full name suf"
      by simp
    then show ?thesis by blast
  next
    case (Some a)
    obtain f n r where a: "a = (f, n, r)" by (cases a)
    have m: "c # s = f @ r" "placeholder f n r"
      using psqlVarRE_atD [of "c # s" f n r] Some a by simp_all
    from "2.prems" Some a
    have "(j, full, name) = (i, f, n) \<or> (j, full, name) \<in> set (allMatches (i + length f) r)"
      by simp
    then show ?thesis
    proof
      assume "(j, full, name) = (i, f, n)"
      then have e: "j = i" "full = f" "name = n" by simp_all
      have "c # s = [] @ full @ r" unfolding m(1) e by simp
      moreover have "j = i + length ([]::string)" unfolding e by simp
      moreover have "placeholder full name r" unfolding e by (rule m(2))
      ultimately show ?thesis by blast
    next
      assume mem: "(j, full, name) \<in> set (allMatches (i + length f) r)"
      have "\<exists>pre suf. r = pre @ full @ suf \<and> j = (i + length f) + length pre
        \<and> placeholder full name suf"
        by (rule "2.IH"(2) [OF Some a [symmetric] refl mem])
      then obtain pre suf where
        r: "r = pre @ full @ suf" and j: "j = (i + length f) + length pre"
        and p: "placeholder full name suf"
        by blast
      have "c # s = (f @ pre) @ full @ suf" unfolding m(1) r by simp
      moreover have "j = i + length (f @ pre)" unfolding j by simp
      ultimately show ?thesis using p by blast
    qed
  qed
qed

section \<open>Ordinal assignment\<close>


lemma filter_first_occurrences:
  "filter Q (first_occurrences xs) = first_occurrences (filter Q xs)"
proof (induction xs)
  case Nil
  show ?case by simp
next
  case (Cons x xs)
  show ?case
  proof (cases "Q x")
    case True
    have "filter Q (filter (\<lambda>y. y \<noteq> x) (first_occurrences xs))
        = filter (\<lambda>y. y \<noteq> x) (filter Q (first_occurrences xs))"
      by (simp add: conj_commute)
    with True Cons show ?thesis by simp
  next
    case False
    have "filter Q (filter (\<lambda>y. y \<noteq> x) (first_occurrences xs)) = filter Q (first_occurrences xs)"
      using False by (auto intro: filter_cong)
    with False Cons show ?thesis by simp
  qed
qed

lemma set_first_occurrences [simp]: "set (first_occurrences xs) = set xs"
  by (induction xs) auto

lemma distinct_first_occurrences [simp]: "distinct (first_occurrences xs)"
  by (induction xs) auto

lemma length_first_occurrences: "length (first_occurrences xs) = card (set xs)"
  using distinct_card [of "first_occurrences xs"] by simp

lemma map_of_None_iff: "map_of m v = None \<longleftrightarrow> v \<notin> fst ` set m"
  by (simp add: map_of_eq_None_iff)

lemma ordinals_closed_form:
  "ordinals ms m p =
     (let new = first_occurrences
                  (filter (\<lambda>v. \<not> isReservedName v \<and> v \<notin> fst ` set m) (map snd ms))
      in (m @ zip new (map (\<lambda>i. p + int i) [0..<length new]), p + int (length new)))"
proof (induction ms arbitrary: m p)
  case Nil
  show ?case by simp
next
  case (Cons match ms)
  let ?v = "snd match"
  show ?case
  proof (cases "\<not> isReservedName ?v \<and> ?v \<notin> fst ` set m")
    case False
    then show ?thesis using Cons [of m p] by (auto simp: map_of_None_iff Let_def)
  next
    case True
    let ?P = "\<lambda>v. \<not> isReservedName v \<and> v \<notin> fst ` set m"
    let ?new' = "first_occurrences
       (filter (\<lambda>v. \<not> isReservedName v \<and> v \<notin> fst ` set (m @ [(?v, p)])) (map snd ms))"
    have f: "filter (\<lambda>v. \<not> isReservedName v \<and> v \<notin> fst ` set (m @ [(?v, p)])) (map snd ms)
        = filter (\<lambda>y. y \<noteq> ?v) (filter ?P (map snd ms))"
      by (auto intro: filter_cong)
    have "first_occurrences (filter ?P (map snd (match # ms)))
        = ?v # filter (\<lambda>y. y \<noteq> ?v) (first_occurrences (filter ?P (map snd ms)))"
      using True by simp
    also have "\<dots> = ?v # first_occurrences (filter (\<lambda>y. y \<noteq> ?v) (filter ?P (map snd ms)))"
      by (simp only: filter_first_occurrences)
    also have "\<dots> = ?v # ?new'"
      by (simp only: f)
    finally have new: "first_occurrences (filter ?P (map snd (match # ms))) = ?v # ?new'" .
    have z: "zip (?v # ?new') (map (\<lambda>i. p + int i) [0..<length (?v # ?new')])
        = (?v, p) # zip ?new' (map (\<lambda>i. (p + 1) + int i) [0..<length ?new'])"
      by (simp add: upt_rec [of 0 "Suc _"] map_Suc_upt [symmetric] del: upt_Suc add: comp_def add.assoc)
    have "ordinals (match # ms) m p = ordinals ms (m @ [(?v, p)]) (p + 1)"
      using True by (simp add: map_of_None_iff Let_def)
    also have "\<dots> = ((m @ [(?v, p)]) @ zip ?new' (map (\<lambda>i. (p + 1) + int i) [0..<length ?new']),
        (p + 1) + int (length ?new'))"
      using Cons [of "m @ [(?v, p)]" "p + 1"] by (simp add: Let_def)
    finally show ?thesis
      unfolding Let_def new z by simp
  qed
qed

lemma mapping_of_closed_form:
  "mapping_of raw = zip (first_occurrences (eligible raw)) (map int [1..<Suc (card (set (eligible raw)))])"
proof -
  let ?new = "first_occurrences (eligible raw)"
  have "mapping_of raw = zip ?new (map (\<lambda>i. 1 + int i) [0..<length ?new])"
    by (simp add: mapping_of_def ordinals_closed_form eligible_def Let_def)
  also have "map (\<lambda>i. 1 + int i) [0..<length ?new] = map int [1..<Suc (length ?new)]"
    by (simp add: map_Suc_upt [symmetric] del: upt_Suc)
  finally show ?thesis by (simp add: length_first_occurrences)
qed

section \<open>Totality of \<open>NewQuery\<close> and the ordinals it assigns\<close>


lemma mapping_of_keys: "map fst (mapping_of raw) = first_occurrences (eligible raw)"
  by (simp add: mapping_of_closed_form length_first_occurrences del: upt_Suc)

lemma mapping_of_ordinals:
  "map snd (mapping_of raw) = map int [1..<Suc (card (set (eligible raw)))]"
  by (simp add: mapping_of_closed_form length_first_occurrences del: upt_Suc)

lemma length_mapping_of: "length (mapping_of raw) = card (set (eligible raw))"
  using arg_cong [OF mapping_of_keys [of raw], of length]
  by (simp add: length_first_occurrences)

lemma set_int_upt: "set (map int [1..<Suc k]) = {1..int k}"
proof -
  have "set (map int [1..<Suc k]) = int ` {1..k}"
    by (simp add: atLeastLessThanSuc_atLeastAtMost del: upt_Suc)
  also have "\<dots> = {1..int k}"
    using image_int_atLeastAtMost [of 1 k] by simp
  finally show ?thesis .
qed

lemma strict_sorted_int_upt: "sorted_wrt (<) (map int [1..<Suc k])"
  by (simp add: sorted_wrt_map del: upt_Suc)

lemma sorted_ordinals: "sorted (map snd (mapping_of raw))"
  unfolding mapping_of_ordinals
  using strict_sorted_int_upt by (rule strict_sorted_imp_sorted)

lemma distinct_ordinals: "distinct (map snd (mapping_of raw))"
  unfolding mapping_of_ordinals
  using strict_sorted_int_upt by (simp add: strict_sorted_iff del: upt_Suc)

lemma eligible_is_identifier:
  assumes "name \<in> set (eligible raw)"
  shows "is_identifier name"
proof -
  from assms have "name \<in> snd ` set (FindAllStringSubmatch raw)"
    by (auto simp: eligible_def)
  then obtain j full where "(j, full, name) \<in> set (allMatches 0 raw)"
    by (auto simp: FindAllStringSubmatch_def)
  from allMatchesD [OF this] show ?thesis
    by (auto simp: placeholder_def)
qed

lemma mapping_of_is_identifier:
  assumes "entry \<in> set (mapping_of raw)"
  shows "is_identifier (fst entry)"
proof -
  from assms have "fst entry \<in> set (map fst (mapping_of raw))" by simp
  then have "fst entry \<in> set (eligible raw)" by (simp add: mapping_of_keys)
  then show ?thesis by (rule eligible_is_identifier)
qed

lemma rewrite_Inr:
  "\<forall>entry \<in> set its. is_identifier (fst entry) \<Longrightarrow> \<exists>query'. rewrite its query = Inr query'"
proof (induction its arbitrary: query)
  case Nil
  show ?case by simp
next
  case (Cons entry its)
  then have "Compile (fst entry) = Some (fst entry)"
    by (simp add: Compile_def identifier_word_chars)
  with Cons show ?case by simp
qed

lemma range_order_set: "range_order m its \<Longrightarrow> set its = set m"
  by (auto simp: range_order_def dest: mset_eq_setD)

lemma NewQuery_Inr:
  assumes "range_order (mapping_of raw) its"
  shows "\<exists>query'. rewrite its raw = Inr query' \<and>
     NewQuery its raw = Inr \<lparr>Raw = raw, OrdinalQuery = query', Mapping = mapping_of raw\<rparr>"
proof -
  have "\<forall>entry \<in> set its. is_identifier (fst entry)"
    using range_order_set [OF assms] mapping_of_is_identifier by blast
  from rewrite_Inr [OF this, of raw] obtain query' where "rewrite its raw = Inr query'" ..
  then show ?thesis by (simp add: NewQuery_def)
qed

lemma NewQuery_Mapping: "NewQuery its raw = Inr q \<Longrightarrow> Mapping q = mapping_of raw \<and> Raw q = raw"
  by (auto simp: NewQuery_def split: sum.splits)

lemma ordinals_old_keys:
  "fst ` set (fst (ordinals_old ms m p)) \<subseteq> fst ` set m \<union> snd ` set ms"
proof (induction ms arbitrary: m p)
  case Nil
  show ?case by simp
next
  case (Cons match ms)
  show ?case
  proof (cases "map_of m (snd match) = None")
    case True
    with Cons [of "m @ [(snd match, p)]" "p + 1"] show ?thesis by (auto simp: Let_def)
  next
    case False
    with Cons [of m p] show ?thesis by (auto simp: Let_def)
  qed
qed

lemma NewQuery_old_Inr:
  assumes "range_order (mapping_of_old raw) its"
  shows "\<exists>query'. rewrite its raw = Inr query' \<and>
     NewQuery_old its raw = Inr \<lparr>Raw = raw, OrdinalQuery = query', Mapping = mapping_of_old raw\<rparr>"
proof -
  have "is_identifier (fst entry)" if "entry \<in> set its" for entry
  proof -
    from that have "fst entry \<in> fst ` set (mapping_of_old raw)"
      using range_order_set [OF assms] by simp
    then have "fst entry \<in> snd ` set (FindAllStringSubmatch raw)"
      using ordinals_old_keys [of "FindAllStringSubmatch raw" "[]" 1]
      by (auto simp: mapping_of_old_def)
    then obtain j full where "(j, full, fst entry) \<in> set (allMatches 0 raw)"
      by (auto simp: FindAllStringSubmatch_def)
    from allMatchesD [OF this] show ?thesis by (auto simp: placeholder_def)
  qed
  then have "\<forall>entry \<in> set its. is_identifier (fst entry)" by simp
  from rewrite_Inr [OF this, of raw] obtain query' where "rewrite its raw = Inr query'" ..
  then show ?thesis by (simp add: NewQuery_old_def)
qed

text \<open>
  Claim C9. \<open>NewQuery\<close> is total: for every text, and whatever order the rewrite loop
  visits the mapping in, every per-name pattern compiles (the names are identifiers), no
  call is made on a nil \<open>*Regexp\<close>, and a \<open>Query\<close> is returned that holds the text and
  the mapping. The searches \<open>allMatches\<close> and \<open>ReplaceAllLiteralString\<close> terminate on
  every text, as their termination proofs show.
\<close>

theorem NewQuery_total:
  "range_order (mapping_of raw) (mapping_of raw) \<and>
   (\<forall>its. range_order (mapping_of raw) its \<longrightarrow>
      (\<exists>q. NewQuery its raw = Inr q \<and> Raw q = raw \<and> Mapping q = mapping_of raw))"
proof -
  have "\<exists>q. NewQuery its raw = Inr q \<and> Raw q = raw \<and> Mapping q = mapping_of raw"
    if "range_order (mapping_of raw) its" for its
    using NewQuery_Inr [OF that] by auto
  then show ?thesis by (simp add: range_order_def)
qed

theorem NewQuery_total_witness:
  "range_order (mapping_of ''SELECT :a, :'b' FROM t:: WHERE :'' ) [(''b'', 2), (''a'', 1)]
   \<and> (\<exists>q. NewQuery [(''b'', 2), (''a'', 1)] ''SELECT :a, :'b' FROM t:: WHERE :'' = Inr q)"
proof -
  have r: "range_order (mapping_of ''SELECT :a, :'b' FROM t:: WHERE :'') [(''b'', 2), (''a'', 1)]"
    by code_simp
  with NewQuery_total [of "''SELECT :a, :'b' FROM t:: WHERE :''"] show ?thesis by blast
qed

text \<open>
  Claim C3. For a text with \<open>k\<close> distinct eligible names, the mapping of the result of
  \<open>NewQuery\<close> has exactly \<open>k\<close> entries; its keys are the eligible names in the order of
  their first occurrence in the text, and their ordinals are \<open>1, \<dots>, k\<close> in that order,
  so the ordinals are the set \<open>{1..k}\<close> without duplicates or gaps. On
  \<open>... :b ... :a ... :b\<close> the mapping is \<open>{b:1, a:2}\<close>.
\<close>

theorem NewQuery_ordinals:
  "(\<forall>its q. NewQuery its raw = Inr q \<longrightarrow>
      (let k = card (set (eligible raw)) in
         length (Mapping q) = k
       \<and> map fst (Mapping q) = first_occurrences (eligible raw)
       \<and> map snd (Mapping q) = map int [1..<Suc k]
       \<and> distinct (map fst (Mapping q)) \<and> distinct (map snd (Mapping q))
       \<and> snd ` set (Mapping q) = {1..int k}))
   \<and> (\<forall>its q. NewQuery its ''... :b ... :a ... :b'' = Inr q \<longrightarrow>
         Mapping q = [(''b'', 1), (''a'', 2)])"
proof -
  have a: "length (mapping_of raw) = card (set (eligible raw))"
    by (rule length_mapping_of)
  have b: "map fst (mapping_of raw) = first_occurrences (eligible raw)"
    by (rule mapping_of_keys)
  have c: "map snd (mapping_of raw) = map int [1..<Suc (card (set (eligible raw)))]"
    by (rule mapping_of_ordinals)
  have d: "distinct (map fst (mapping_of raw))" unfolding b by simp
  have e: "distinct (map snd (mapping_of raw))" by (rule distinct_ordinals)
  have "snd ` set (mapping_of raw) = set (map snd (mapping_of raw))" by simp
  also have "\<dots> = {1..int (card (set (eligible raw)))}"
    unfolding c by (rule set_int_upt)
  finally have f: "snd ` set (mapping_of raw) = {1..int (card (set (eligible raw)))}" .
  have g: "mapping_of ''... :b ... :a ... :b'' = [(''b'', 1), (''a'', 2)]"
    by code_simp
  have main: "let k = card (set (eligible raw)) in
         length (Mapping q) = k
       \<and> map fst (Mapping q) = first_occurrences (eligible raw)
       \<and> map snd (Mapping q) = map int [1..<Suc k]
       \<and> distinct (map fst (Mapping q)) \<and> distinct (map snd (Mapping q))
       \<and> snd ` set (Mapping q) = {1..int k}"
    if "NewQuery its raw = Inr q" for its q
  proof -
    have m: "Mapping q = mapping_of raw" using NewQuery_Mapping [OF that] by simp
    show ?thesis unfolding Let_def m using a b c d e f by blast
  qed
  have ex: "Mapping q = [(''b'', 1), (''a'', 2)]"
    if "NewQuery its ''... :b ... :a ... :b'' = Inr q" for its q
    using NewQuery_Mapping [OF that] g by simp
  from main ex show ?thesis by blast
qed

theorem NewQuery_ordinals_witness:
  "NewQuery [(''id'', 1), (''name'', 2)] ''SELECT * FROM users WHERE id = :id AND name = :name''
     = Inr \<lparr>Raw = ''SELECT * FROM users WHERE id = :id AND name = :name'',
            OrdinalQuery = ''SELECT * FROM users WHERE id = $1 AND name = $2'',
            Mapping = [(''id'', 1), (''name'', 2)]\<rparr>
   \<and> card (set (eligible ''SELECT * FROM users WHERE id = :id AND name = :name'')) = 2
   \<and> first_occurrences (eligible ''SELECT * FROM users WHERE id = :id AND name = :name'')
       = [''id'', ''name'']
   \<and> NewQuery [(''a'', 2), (''b'', 1)] ''... :b ... :a ... :b''
       = Inr \<lparr>Raw = ''... :b ... :a ... :b'', OrdinalQuery = ''... $1 ... $2 ... $1'',
              Mapping = [(''b'', 1), (''a'', 2)]\<rparr>"
proof -
  let ?raw = "''SELECT * FROM users WHERE id = :id AND name = :name''"
  let ?q = "\<lparr>Raw = ?raw, OrdinalQuery = ''SELECT * FROM users WHERE id = $1 AND name = $2'',
            Mapping = [(''id'', 1), (''name'', 2)]\<rparr>"
  have n: "NewQuery [(''id'', 1), (''name'', 2)] ?raw = Inr ?q"
    by code_simp
  have n2: "NewQuery [(''a'', 2), (''b'', 1)] ''... :b ... :a ... :b''
       = Inr \<lparr>Raw = ''... :b ... :a ... :b'', OrdinalQuery = ''... $1 ... $2 ... $1'',
              Mapping = [(''b'', 1), (''a'', 2)]\<rparr>"
    by code_simp
  from NewQuery_ordinals [of ?raw] n
  have "let k = card (set (eligible ?raw)) in
         length (Mapping ?q) = k
       \<and> map fst (Mapping ?q) = first_occurrences (eligible ?raw)
       \<and> map snd (Mapping ?q) = map int [1..<Suc k]
       \<and> distinct (map fst (Mapping ?q)) \<and> distinct (map snd (Mapping ?q))
       \<and> snd ` set (Mapping ?q) = {1..int k}"
    by blast
  then have "card (set (eligible ?raw)) = 2" "first_occurrences (eligible ?raw) = [''id'', ''name'']"
    by (simp_all add: Let_def del: upt_Suc)
  with n n2 show ?thesis by simp
qed

section \<open>\<open>Prepare\<close> and the double colon\<close>

lemma fill_map:
  "i + length ps \<le> length cs \<Longrightarrow>
     fill i ps args cs = Inr (take i cs @ map (\<lambda>p. args (fst p)) ps @ drop (i + length ps) cs)"
proof (induction ps arbitrary: i cs)
  case Nil
  show ?case by simp
next
  case (Cons p ps)
  let ?cs = "cs[i := args (fst p)]"
  from Cons.prems have i: "i < length cs" by simp
  have t: "take (Suc i) ?cs = take i cs @ [args (fst p)]"
    using i by (simp add: take_Suc_conv_app_nth)
  have d: "drop (Suc i + length ps) ?cs = drop (Suc i + length ps) cs"
    by simp
  have "fill i (p # ps) args cs = fill (Suc i) ps args ?cs"
    using i by simp
  also have "\<dots> = Inr (take (Suc i) ?cs @ map (\<lambda>p. args (fst p)) ps @ drop (Suc i + length ps) ?cs)"
    using Cons.prems by (intro Cons.IH) simp
  finally show ?case unfolding t d by simp
qed

lemma sort_range_order:
  assumes "range_order (mapping_of raw) visit"
  shows "sort_key snd visit = mapping_of raw"
proof (rule sort_key_inj_key_eq)
  show "mset visit = mset (mapping_of raw)" using assms by (simp add: range_order_def)
  have "inj_on snd (set (mapping_of raw))"
    using distinct_ordinals [of raw] by (simp add: distinct_map)
  then show "inj_on snd (set visit)" using range_order_set [OF assms] by simp
  show "sorted (map snd (mapping_of raw))" by (rule sorted_ordinals)
qed

lemma Prepare_closed_form:
  assumes "NewQuery its raw = Inr q" and "range_order (Mapping q) visit"
  shows "Prepare visit q args = Inr (map (\<lambda>p. args (fst p)) (mapping_of raw))"
proof -
  have m: "Mapping q = mapping_of raw" using NewQuery_Mapping [OF assms(1)] by simp
  have s: "sort_key snd visit = mapping_of raw"
    using assms(2) unfolding m by (rule sort_range_order)
  have "fill 0 (mapping_of raw) args (replicate (length (mapping_of raw)) None)
      = Inr (map (\<lambda>p. args (fst p)) (mapping_of raw))"
    using fill_map [of 0 "mapping_of raw" "replicate (length (mapping_of raw)) None" args]
    by simp
  then show ?thesis by (simp add: Prepare_def m s)
qed

lemma mapping_of_nth:
  assumes "j < length (mapping_of raw)"
  shows "snd (mapping_of raw ! j) = int j + 1"
proof -
  have "snd (mapping_of raw ! j) = map snd (mapping_of raw) ! j"
    using assms by simp
  also have "\<dots> = map int [1..<Suc (card (set (eligible raw)))] ! j"
    by (simp only: mapping_of_ordinals)
  also have "\<dots> = int j + 1"
    using assms by (simp add: length_mapping_of del: upt_Suc)
  finally show ?thesis .
qed

text \<open>
  Claim C4. For a parsed query (a result of \<open>NewQuery\<close>) with \<open>N\<close> ordinals and any
  argument mapping, \<open>Prepare\<close> returns, without panic, a list of length \<open>N\<close>; every
  ordinal \<open>1..N\<close> belongs to a name, and slot \<open>ord\<close> (counted from 1) holds the caller's
  value for the name of ordinal \<open>ord\<close>, or \<open>nil\<close> (\<open>None\<close>) when the caller gave none.
  The list is the same for every order in which \<open>range q.Mapping\<close> visits the entries;
  the caller's mapping is only looked up, never iterated.
\<close>

theorem Prepare_ordinal_order:
  assumes "NewQuery its raw = Inr q" and "range_order (Mapping q) visit"
  shows "\<exists>components. Prepare visit q args = Inr components
     \<and> length components = length (Mapping q)
     \<and> (\<forall>i \<in> {1..int (length (Mapping q))}. \<exists>name. (name, i) \<in> set (Mapping q))
     \<and> (\<forall>(name, ord) \<in> set (Mapping q).
           1 \<le> ord \<and> ord \<le> int (length (Mapping q)) \<and> components ! (nat ord - 1) = args name)
     \<and> (\<forall>visit'. range_order (Mapping q) visit' \<longrightarrow> Prepare visit' q args = Inr components)"
proof -
  let ?m = "mapping_of raw"
  let ?cs = "map (\<lambda>p. args (fst p)) ?m"
  have m: "Mapping q = ?m" using NewQuery_Mapping [OF assms(1)] by simp
  have p: "Prepare visit q args = Inr ?cs"
    using assms by (rule Prepare_closed_form)
  have p': "Prepare visit' q args = Inr ?cs" if "range_order ?m visit'" for visit'
    using assms(1) that [folded m] by (rule Prepare_closed_form)
  have all: "\<exists>name. (name, i) \<in> set ?m" if "i \<in> {1..int (length ?m)}" for i
  proof -
    have "snd ` set ?m = {1..int (length ?m)}"
      using set_int_upt [of "card (set (eligible raw))"]
      by (simp only: length_mapping_of flip: mapping_of_ordinals set_map)
    with that have "i \<in> snd ` set ?m" by simp
    then show ?thesis by force
  qed
  have slot: "1 \<le> ord \<and> ord \<le> int (length ?m) \<and> ?cs ! (nat ord - 1) = args name"
    if "(name, ord) \<in> set ?m" for name ord
  proof -
    from that obtain j where j: "j < length ?m" "?m ! j = (name, ord)"
      by (auto simp: in_set_conv_nth)
    have o: "ord = int j + 1" using mapping_of_nth [OF j(1)] j(2) by simp
    have "?cs ! j = args name" using j by simp
    moreover have "nat ord - 1 = j" using o by simp
    ultimately show ?thesis using o j(1) by simp
  qed
  show ?thesis
    unfolding m using p p' all slot by (intro exI [of _ ?cs]) auto
qed

theorem Prepare_ordinal_order_witness:
  "NewQuery [(''id'', 1), (''name'', 2)] ''SELECT * FROM users WHERE id = :id AND name = :name''
     = Inr \<lparr>Raw = ''SELECT * FROM users WHERE id = :id AND name = :name'',
            OrdinalQuery = ''SELECT * FROM users WHERE id = $1 AND name = $2'',
            Mapping = [(''id'', 1), (''name'', 2)]\<rparr>
   \<and> range_order [(''id'', 1::int), (''name'', 2)] [(''name'', 2), (''id'', 1)]
   \<and> Prepare [(''name'', 2), (''id'', 1)]
        \<lparr>Raw = ''SELECT * FROM users WHERE id = :id AND name = :name'',
            OrdinalQuery = ''SELECT * FROM users WHERE id = $1 AND name = $2'',
            Mapping = [(''id'', 1), (''name'', 2)]\<rparr>
        [''name'' \<mapsto> ''Ann'', ''id'' \<mapsto> ''5''] = Inr [Some ''5'', Some ''Ann'']
   \<and> (\<exists>components.
        Prepare [(''name'', 2), (''id'', 1)]
          \<lparr>Raw = ''SELECT * FROM users WHERE id = :id AND name = :name'',
            OrdinalQuery = ''SELECT * FROM users WHERE id = $1 AND name = $2'',
            Mapping = [(''id'', 1), (''name'', 2)]\<rparr>
          [''id'' \<mapsto> ''5''] = Inr components
        \<and> length components = 2 \<and> components ! 0 = Some ''5'' \<and> components ! 1 = None)"
proof -
  let ?raw = "''SELECT * FROM users WHERE id = :id AND name = :name''"
  let ?q = "\<lparr>Raw = ?raw, OrdinalQuery = ''SELECT * FROM users WHERE id = $1 AND name = $2'',
            Mapping = [(''id'', 1), (''name'', 2)]\<rparr>"
  let ?visit = "[(''name'', 2), (''id'', 1::int)]"
  have n: "NewQuery [(''id'', 1), (''name'', 2)] ?raw = Inr ?q"
    by code_simp
  have r: "range_order (Mapping ?q) ?visit"
    by code_simp
  have e: "Prepare ?visit ?q [''name'' \<mapsto> ''Ann'', ''id'' \<mapsto> ''5''] = Inr [Some ''5'', Some ''Ann'']"
    by code_simp
  from Prepare_ordinal_order [OF n r, of "[''id'' \<mapsto> ''5'']"]
  obtain components where
    c: "Prepare ?visit ?q [''id'' \<mapsto> ''5''] = Inr components"
      "length components = length (Mapping ?q)"
      "\<forall>(name, ord) \<in> set (Mapping ?q).
           1 \<le> ord \<and> ord \<le> int (length (Mapping ?q))
           \<and> components ! (nat ord - 1) = [''id'' \<mapsto> ''5''] name"
    by blast
  from c(2) have "length components = 2" by simp
  moreover from c(3) have "components ! 0 = Some ''5''" "components ! 1 = None"
    by simp_all
  ultimately show ?thesis using n r e c(1) by auto
qed

lemma allMatches_position:
  assumes "(i, full, name) \<in> set (allMatches 0 raw)"
  shows "i + 2 < length raw \<and> raw ! i \<noteq> CHR '':'' \<and> raw ! (i + 1) = CHR '':''
     \<and> raw ! (i + 2) \<noteq> CHR '':''"
proof -
  from allMatchesD [OF assms] obtain pre suf c q1 q2 where
    raw: "raw = pre @ full @ suf" and i: "i = length pre"
    and full: "full = c # CHR '':'' # q1 @ name @ q2" and c: "c \<noteq> CHR '':''"
    and q1: "quote_opt q1" and n: "is_identifier name"
    by (auto simp: placeholder_def)
  obtain l r where name: "name = l # r" "letter l"
    using n by (cases name) (auto simp: is_identifier_def)
  have l: "l \<noteq> CHR '':''" using name(2) letter_word_char by fastforce
  have h: "(q1 @ name) ! 0 \<noteq> CHR '':''"
  proof (cases q1)
    case Nil
    with name l show ?thesis by simp
  next
    case (Cons x xs)
    with q1 have "quote x" by (simp add: quote_opt_def)
    then have "x \<noteq> CHR '':''" by auto
    with Cons show ?thesis by simp
  qed
  have "raw = pre @ c # CHR '':'' # ((q1 @ name) @ q2 @ suf)" unfolding raw full by simp
  moreover have "q1 @ name \<noteq> []" using name by simp
  ultimately show ?thesis using c h unfolding i
    by (cases "q1 @ name") (simp_all add: nth_append)
qed

text \<open>
  Claim C5. Every name of the mapping comes from a match of the discovery pattern, and in
  every match the colon (at offset \<open>i + 1\<close> of the text) follows a character that is not
  a colon and is followed by one that is not a colon either: a colon right after a colon
  never starts a parameter, and neither colon of a type cast \<open>::type\<close> does. On
  \<open>x::integer\<close> the mapping is empty and the text is returned unchanged.
\<close>

theorem double_colon_no_parameter:
  "(\<forall>name \<in> fst ` set (mapping_of raw). \<exists>i full. (i, full, name) \<in> set (allMatches 0 raw))
   \<and> (\<forall>(i, full, name) \<in> set (allMatches 0 raw).
         i + 2 < length raw \<and> raw ! i \<noteq> CHR '':'' \<and> raw ! (i + 1) = CHR '':''
         \<and> raw ! (i + 2) \<noteq> CHR '':'')
   \<and> (\<forall>its. range_order (mapping_of ''x::integer'') its \<longrightarrow>
         NewQuery its ''x::integer''
           = Inr \<lparr>Raw = ''x::integer'', OrdinalQuery = ''x::integer'', Mapping = []\<rparr>)"
proof -
  have a: "\<exists>i full. (i, full, name) \<in> set (allMatches 0 raw)"
    if "name \<in> fst ` set (mapping_of raw)" for name
  proof -
    from that have "name \<in> set (map fst (mapping_of raw))" by simp
    then have "name \<in> set (eligible raw)" by (simp add: mapping_of_keys)
    then have "name \<in> snd ` snd ` set (allMatches 0 raw)"
      by (auto simp: eligible_def FindAllStringSubmatch_def)
    then show ?thesis by force
  qed
  have m: "mapping_of ''x::integer'' = []" by code_simp
  have n: "NewQuery [] ''x::integer''
      = Inr \<lparr>Raw = ''x::integer'', OrdinalQuery = ''x::integer'', Mapping = []\<rparr>"
    by code_simp
  have c: "NewQuery its ''x::integer''
      = Inr \<lparr>Raw = ''x::integer'', OrdinalQuery = ''x::integer'', Mapping = []\<rparr>"
    if "range_order (mapping_of ''x::integer'') its" for its
    using that n unfolding m by (simp add: range_order_def)
  show ?thesis using a allMatches_position c by blast
qed

theorem double_colon_no_parameter_witness:
  "(3, ''y:b'', ''b'') \<in> set (allMatches 0 ''x::y:b::c'')
   \<and> ''x::y:b::c'' ! 3 \<noteq> CHR '':'' \<and> ''x::y:b::c'' ! (3 + 1) = CHR '':''
   \<and> mapping_of ''x::y:b::c'' = [(''b'', 1)]
   \<and> range_order (mapping_of ''x::integer'') []
   \<and> NewQuery [] ''x::integer''
       = Inr \<lparr>Raw = ''x::integer'', OrdinalQuery = ''x::integer'', Mapping = []\<rparr>"
proof -
  have a: "(3, ''y:b'', ''b'') \<in> set (allMatches 0 ''x::y:b::c'')" by code_simp
  have m: "mapping_of ''x::y:b::c'' = [(''b'', 1)]" by code_simp
  have r: "range_order (mapping_of ''x::integer'') []" by code_simp
  from double_colon_no_parameter [of "''x::y:b::c''"] a r
  show ?thesis using m by fastforce
qed

section \<open>The block scanner\<close>

lemma scan_content:
  "\<forall>l \<in> set body. header l = None \<Longrightarrow>
     scan st result (body @ rest) =
       (case st of
          NoBlockOpen \<Rightarrow> scan NoBlockOpen result rest
        | BlockOpen name buffer \<Rightarrow> scan (BlockOpen name (buffer @ body)) result rest)"
proof (induction body arbitrary: st)
  case Nil
  show ?case by (cases st) simp_all
next
  case (Cons l body)
  then have h: "header l = None" and b: "\<forall>l \<in> set body. header l = None" by simp_all
  show ?case
  proof (cases st)
    case NoBlockOpen
    with h Cons.IH [OF b, of NoBlockOpen] show ?thesis by simp
  next
    case (BlockOpen name buffer)
    with h Cons.IH [OF b, of "BlockOpen name (buffer @ [l])"] show ?thesis by simp
  qed
qed

lemma scan_blocks:
  "\<forall>(h, name, body) \<in> set blocks. header h = Some name \<and> (\<forall>l \<in> set body. header l = None) \<Longrightarrow>
     scan st result (concat (map (\<lambda>(h, name, body). h # body) blocks)) =
       finalize st result ++ map_of (rev (map (\<lambda>(h, name, body). (name, join body)) blocks))"
proof (induction blocks arbitrary: st result)
  case Nil
  show ?case by simp
next
  case (Cons block blocks)
  obtain h name body where block: "block = (h, name, body)" by (cases block)
  from Cons.prems block have h: "header h = Some name" and b: "\<forall>l \<in> set body. header l = None"
    and rest: "\<forall>(h, name, body) \<in> set blocks. header h = Some name \<and> (\<forall>l \<in> set body. header l = None)"
    by simp_all
  let ?rest = "concat (map (\<lambda>(h, name, body). h # body) blocks)"
  let ?m = "map_of (rev (map (\<lambda>(h, name, body). (name, join body)) blocks))"
  have "scan st result (concat (map (\<lambda>(h, name, body). h # body) (block # blocks)))
      = scan (BlockOpen name []) (finalize st result) (body @ ?rest)"
    using h block by simp
  also have "\<dots> = scan (BlockOpen name body) (finalize st result) ?rest"
    using scan_content [OF b, of "BlockOpen name []" "finalize st result" ?rest] by simp
  also have "\<dots> = finalize (BlockOpen name body) (finalize st result) ++ ?m"
    by (rule Cons.IH [OF rest])
  also have "\<dots> = finalize st result ++ ([name \<mapsto> join body] ++ ?m)"
    by simp
  also have "[name \<mapsto> join body] ++ ?m
      = map_of (rev (map (\<lambda>(h, name, body). (name, join body)) (block # blocks)))"
    unfolding block by simp
  finally show ?case .
qed

lemma trim_core:
  assumes "list_all space ws1" and "list_all space ws2"
    and "x \<noteq> []" and "\<not> space (hd x)" and "\<not> space (last x)"
  shows "trim (ws1 @ x @ ws2) = x"
proof -
  have 1: "dropWhile space (ws1 @ x @ ws2) = x @ ws2"
    using assms(1,3,4) by (cases x) (simp_all add: list_all_iff dropWhile_append)
  have 2: "dropWhile space (rev ws2 @ rev x) = rev x"
    using assms(2,3,5) by (cases "rev x") (simp_all add: list_all_iff dropWhile_append last_rev [symmetric] del: last_rev)
  show ?thesis unfolding trim_def 1 by (simp add: 2)
qed

lemma header_form:
  assumes ws: "list_all space ws1" "list_all space ws2" "list_all space ws3" "list_all space ws4"
    and ident: "ident \<noteq> []" "list_all (\<lambda>c. \<not> space c) ident"
  shows "header (ws1 @ ''--'' @ ws2 @ ''name:'' @ ws3 @ ident @ ws4) = Some ident"
proof -
  let ?x = "''--'' @ ws2 @ ''name:'' @ ws3 @ ident"
  have l: "\<not> space (last ?x)" using ident by (simp add: list_all_iff)
  have "trim (ws1 @ ?x @ ws4) = ?x"
    by (rule trim_core [OF ws(1) ws(4) _ _ l]) (simp_all add: space_def)
  then have t: "trim (ws1 @ ''--'' @ ws2 @ ''name:'' @ ws3 @ ident @ ws4) = ?x" by simp
  have p1: "prefix ''--'' ?x" by simp
  have e1: "drop 2 ?x = ws2 @ ''name:'' @ ws3 @ ident" by simp
  have d1: "dropWhile space (ws2 @ ''name:'' @ ws3 @ ident) = ''name:'' @ ws3 @ ident"
    using ws(2) by (simp add: list_all_iff dropWhile_append space_def)
  have p2: "prefix ''name:'' (''name:'' @ ws3 @ ident)" by simp
  have e2: "drop 5 (''name:'' @ ws3 @ ident) = ws3 @ ident" by simp
  have d2: "dropWhile space (ws3 @ ident) = ident"
    using ws(3) ident by (cases ident) (simp_all add: list_all_iff dropWhile_append)
  have t3: "takeWhile (\<lambda>c. \<not> space c) ident = ident"
    using ident(2) by (simp add: list_all_iff)
  have d3: "dropWhile (\<lambda>c. \<not> space c) ident = []"
    using ident(2) by (simp add: list_all_iff)
  show ?thesis
    unfolding header_def Let_def t
    by (simp only: p1 e1 d1 p2 e2 d2 t3 d3 ident(1) if_True simp_thms not_False_eq_True)
qed


lemma join_newlines:
  "join body =
     (if body = [] then [] else concat (map (\<lambda>l. l @ [CHR 0x0A]) (butlast body)) @ last body)"
  by (induction body rule: join.induct) simp_all

lemma trim_decomposition:
  "\<exists>ws1 ws4. line = ws1 @ trim line @ ws4 \<and> list_all space ws1 \<and> list_all space ws4"
proof -
  let ?d = "dropWhile space line"
  let ?ws1 = "takeWhile space line"
  let ?ws4 = "rev (takeWhile space (rev ?d))"
  have "rev (dropWhile space (rev ?d)) @ rev (takeWhile space (rev ?d))
      = rev (takeWhile space (rev ?d) @ dropWhile space (rev ?d))"
    by (simp only: rev_append)
  also have "\<dots> = ?d" by (simp only: takeWhile_dropWhile_id rev_rev_ident)
  finally have d: "?d = trim line @ ?ws4" unfolding trim_def by (rule sym)
  have "line = ?ws1 @ ?d" by simp
  with d have 1: "line = ?ws1 @ trim line @ ?ws4" by simp
  have 2: "list_all space ?ws1" by (simp add: list_all_iff) (meson set_takeWhileD)
  have 3: "list_all space ?ws4" by (simp add: list_all_iff) (meson set_takeWhileD)
  from 1 2 3 show ?thesis by blast
qed

lemma header_only_if:
  assumes "header line = Some ident"
  shows "\<exists>ws1 ws2 ws3 ws4. line = ws1 @ ''--'' @ ws2 @ ''name:'' @ ws3 @ ident @ ws4
      \<and> list_all space ws1 \<and> list_all space ws2 \<and> list_all space ws3 \<and> list_all space ws4
      \<and> ident \<noteq> [] \<and> list_all (\<lambda>c. \<not> space c) ident"
proof -
  define t where "t = trim line"
  define r0 where "r0 = drop 2 t"
  define t1 where "t1 = dropWhile space r0"
  define r1 where "r1 = drop 5 t1"
  define t2 where "t2 = dropWhile space r1"
  define x where "x = takeWhile (\<lambda>c. \<not> space c) t2"
  define y where "y = dropWhile (\<lambda>c. \<not> space c) t2"
  have h: "header line =
      (if prefix ''--'' t then
         (if prefix ''name:'' t1 then (if x \<noteq> [] \<and> y = [] then Some x else None) else None)
       else None)"
    unfolding header_def Let_def t_def r0_def t1_def r1_def t2_def x_def y_def ..
  have p1: "prefix ''--'' t"
  proof (rule ccontr)
    assume "\<not> prefix ''--'' t"
    then have "header line = None" unfolding h by (simp only: if_False)
    with assms show False by simp
  qed
  have p2: "prefix ''name:'' t1"
  proof (rule ccontr)
    assume "\<not> prefix ''name:'' t1"
    then have "header line = None" unfolding h by (simp only: p1 if_True if_False)
    with assms show False by simp
  qed
  have c: "x \<noteq> [] \<and> y = []"
  proof (rule ccontr)
    assume "\<not> (x \<noteq> [] \<and> y = [])"
    then have "header line = None" unfolding h by (simp only: p1 p2 if_True if_False)
    with assms show False by simp
  qed
  have "header line = Some x" unfolding h by (simp only: p1 p2 c if_True simp_thms)
  with assms have xi: "x = ident" by simp
  have "t2 = x @ y" unfolding x_def y_def by simp
  with c xi have t2: "t2 = ident" by simp
  have ns: "list_all (\<lambda>c. \<not> space c) ident"
    unfolding xi [symmetric] x_def by (auto simp: list_all_iff dest: set_takeWhileD)
  define ws3 where "ws3 = takeWhile space r1"
  define ws2 where "ws2 = takeWhile space r0"
  have "r1 = ws3 @ t2" unfolding ws3_def t2_def by simp
  then have a: "r1 = ws3 @ ident" unfolding t2 .
  from p2 obtain z1 where "t1 = ''name:'' @ z1" unfolding prefix_def by blast
  then have "t1 = ''name:'' @ r1" unfolding r1_def by simp
  then have b: "t1 = ''name:'' @ ws3 @ ident" unfolding a .
  have "r0 = ws2 @ t1" unfolding ws2_def t1_def by simp
  then have c0: "r0 = ws2 @ ''name:'' @ ws3 @ ident" unfolding b .
  from p1 obtain z0 where "t = ''--'' @ z0" unfolding prefix_def by blast
  then have "t = ''--'' @ r0" unfolding r0_def by simp
  then have t: "t = ''--'' @ ws2 @ ''name:'' @ ws3 @ ident" unfolding c0 .
  from trim_decomposition [of line] obtain ws1 ws4 where
    l: "line = ws1 @ t @ ws4" and w: "list_all space ws1" "list_all space ws4"
    unfolding t_def by blast
  have l': "line = ws1 @ ''--'' @ ws2 @ ''name:'' @ ws3 @ ident @ ws4"
    using l unfolding t by simp
  have w2: "list_all space ws2"
    unfolding ws2_def by (simp add: list_all_iff) (meson set_takeWhileD)
  have w3: "list_all space ws3"
    unfolding ws3_def by (simp add: list_all_iff) (meson set_takeWhileD)
  have ne: "ident \<noteq> []" using c xi by simp
  show ?thesis
    apply (intro exI conjI)
          apply (rule l')
         apply (rule w(1))
        apply (rule w2)
       apply (rule w3)
      apply (rule w(2))
     apply (rule ne)
    apply (rule ns)
    done
qed

lemma lines_decomposition:
  "\<exists>pre blocks. lines = pre @ concat (map (\<lambda>(h, name, body). h # body) blocks)
     \<and> (\<forall>l \<in> set pre. header l = None)
     \<and> (\<forall>(h, name, body) \<in> set blocks. header h = Some name \<and> (\<forall>l \<in> set body. header l = None))"
proof (induction lines)
  case Nil
  show ?case
    by (intro exI [of _ "[]"]) simp
next
  case (Cons line lines)
  then obtain pre blocks where
    l: "lines = pre @ concat (map (\<lambda>(h, name, body). h # body) blocks)"
    and p: "\<forall>l \<in> set pre. header l = None"
    and b: "\<forall>(h, name, body) \<in> set blocks. header h = Some name \<and> (\<forall>l \<in> set body. header l = None)"
    by (elim exE conjE)
  show ?case
  proof (cases "header line")
    case None
    show ?thesis
      by (intro exI [of _ "line # pre"] exI [of _ blocks]) (use None l p b in simp)
  next
    case (Some name)
    show ?thesis
      by (intro exI [of _ "[]"] exI [of _ "(line, name, pre) # blocks"]) (use Some l p b in simp)
  qed
qed

text \<open>
  Claim C8 (on the scanner as modelled from the specification). A line is a header with
  the name \<open>ident\<close> if and only if it is white space, \<open>--\<close>, white space, \<open>name:\<close>, white
  space, the run \<open>ident\<close> of one or more characters other than white space, and white
  space; every other line is content. Every input is some lines that are no headers
  followed by blocks, each a header and lines that are no headers, and on such an input
  the result maps every block name to the lines of the block with a newline between any
  two of them (none after the last, nothing for a block without lines), a later block
  replacing an earlier one of the same name. On the text of the specification the result
  is \<open>{q1: SELECT 1, q2: SELECT 2}\<close>, and an input without any header gives the empty
  mapping.
\<close>

theorem scanBlocks_blocks:
  "(\<forall>line ident. header line = Some ident \<longleftrightarrow>
      (\<exists>ws1 ws2 ws3 ws4. line = ws1 @ ''--'' @ ws2 @ ''name:'' @ ws3 @ ident @ ws4
         \<and> list_all space ws1 \<and> list_all space ws2 \<and> list_all space ws3 \<and> list_all space ws4
         \<and> ident \<noteq> [] \<and> list_all (\<lambda>c. \<not> space c) ident))
   \<and> (\<forall>lines. \<exists>pre blocks.
        lines = pre @ concat (map (\<lambda>(h, name, body). h # body) blocks)
        \<and> (\<forall>l \<in> set pre. header l = None)
        \<and> (\<forall>(h, name, body) \<in> set blocks. header h = Some name \<and> (\<forall>l \<in> set body. header l = None)))
   \<and> (\<forall>pre blocks.
        (\<forall>l \<in> set pre. header l = None)
        \<and> (\<forall>(h, name, body) \<in> set blocks. header h = Some name \<and> (\<forall>l \<in> set body. header l = None)) \<longrightarrow>
        scanBlocks label (pre @ concat (map (\<lambda>(h, name, body). h # body) blocks))
          = map_of (rev (map (\<lambda>(h, name, body).
              (name, if body = [] then []
                     else concat (map (\<lambda>l. l @ [CHR 0x0A]) (butlast body)) @ last body)) blocks)))
   \<and> scanBlocks label (ScanLines [] ''-- name: q1\<newline>SELECT 1\<newline>-- name: q2\<newline>SELECT 2\<newline>'')
       = [''q1'' \<mapsto> ''SELECT 1'', ''q2'' \<mapsto> ''SELECT 2'']
   \<and> (\<forall>lines. (\<forall>l \<in> set lines. header l = None) \<longrightarrow> scanBlocks label lines = Map.empty)"
proof -
  have blocks: "scanBlocks label (pre @ concat (map (\<lambda>(h, name, body). h # body) blocks))
          = map_of (rev (map (\<lambda>(h, name, body).
              (name, if body = [] then []
                     else concat (map (\<lambda>l. l @ [CHR 0x0A]) (butlast body)) @ last body)) blocks))"
    if p: "\<forall>l \<in> set pre. header l = None"
    and b: "\<forall>(h, name, body) \<in> set blocks. header h = Some name \<and> (\<forall>l \<in> set body. header l = None)"
    for pre blocks
  proof -
    have "scanBlocks label (pre @ concat (map (\<lambda>(h, name, body). h # body) blocks))
        = scan NoBlockOpen Map.empty (concat (map (\<lambda>(h, name, body). h # body) blocks))"
      unfolding scanBlocks_def using scan_content [OF p, of NoBlockOpen] by simp
    also have "\<dots> = finalize NoBlockOpen Map.empty
        ++ map_of (rev (map (\<lambda>(h, name, body). (name, join body)) blocks))"
      by (rule scan_blocks [OF b])
    also have "\<dots> = map_of (rev (map (\<lambda>(h, name, body). (name, join body)) blocks))"
      by simp
    finally show ?thesis unfolding join_newlines .
  qed
  have none: "scanBlocks label lines = Map.empty" if "\<forall>l \<in> set lines. header l = None" for lines
    using blocks [of lines "[]"] that by simp
  have ex: "scanBlocks label (ScanLines [] ''-- name: q1\<newline>SELECT 1\<newline>-- name: q2\<newline>SELECT 2\<newline>'')
       = [''q1'' \<mapsto> ''SELECT 1'', ''q2'' \<mapsto> ''SELECT 2'']"
  proof -
    have l: "ScanLines [] ''-- name: q1\<newline>SELECT 1\<newline>-- name: q2\<newline>SELECT 2\<newline>''
       = [''-- name: q1'', ''SELECT 1'', ''-- name: q2'', ''SELECT 2'']"
      by code_simp
    have h: "header ''-- name: q1'' = Some ''q1''" "header ''SELECT 1'' = None"
       "header ''-- name: q2'' = Some ''q2''" "header ''SELECT 2'' = None"
      by code_simp+
    show ?thesis unfolding l scanBlocks_def by (simp add: h)
  qed
  show ?thesis
  proof (intro conjI allI impI iffI)
    fix line ident
    assume "header line = Some ident"
    then show "\<exists>ws1 ws2 ws3 ws4. line = ws1 @ ''--'' @ ws2 @ ''name:'' @ ws3 @ ident @ ws4
         \<and> list_all space ws1 \<and> list_all space ws2 \<and> list_all space ws3 \<and> list_all space ws4
         \<and> ident \<noteq> [] \<and> list_all (\<lambda>c. \<not> space c) ident"
      by (rule header_only_if)
  next
    fix line ident
    assume "\<exists>ws1 ws2 ws3 ws4. line = ws1 @ ''--'' @ ws2 @ ''name:'' @ ws3 @ ident @ ws4
         \<and> list_all space ws1 \<and> list_all space ws2 \<and> list_all space ws3 \<and> list_all space ws4
         \<and> ident \<noteq> [] \<and> list_all (\<lambda>c. \<not> space c) ident"
    then obtain ws1 ws2 ws3 ws4 where
      l: "line = ws1 @ ''--'' @ ws2 @ ''name:'' @ ws3 @ ident @ ws4"
      and w: "list_all space ws1" "list_all space ws2" "list_all space ws3" "list_all space ws4"
        "ident \<noteq> []" "list_all (\<lambda>c. \<not> space c) ident"
      by (elim exE conjE)
    show "header line = Some ident" unfolding l by (rule header_form [OF w])
  next
    fix lines
    show "\<exists>pre blocks. lines = pre @ concat (map (\<lambda>(h, name, body). h # body) blocks)
        \<and> (\<forall>l \<in> set pre. header l = None)
        \<and> (\<forall>(h, name, body) \<in> set blocks. header h = Some name \<and> (\<forall>l \<in> set body. header l = None))"
      by (rule lines_decomposition)
  next
    fix pre blocks
    assume "(\<forall>l \<in> set pre. header l = None)
        \<and> (\<forall>(h, name, body) \<in> set blocks. header h = Some name \<and> (\<forall>l \<in> set body. header l = None))"
    then show "scanBlocks label (pre @ concat (map (\<lambda>(h, name, body). h # body) blocks))
          = map_of (rev (map (\<lambda>(h, name, body).
              (name, if body = [] then []
                     else concat (map (\<lambda>l. l @ [CHR 0x0A]) (butlast body)) @ last body)) blocks))"
      by (intro blocks) simp_all
  next
    show "scanBlocks label (ScanLines [] ''-- name: q1\<newline>SELECT 1\<newline>-- name: q2\<newline>SELECT 2\<newline>'')
       = [''q1'' \<mapsto> ''SELECT 1'', ''q2'' \<mapsto> ''SELECT 2'']"
      by (rule ex)
  next
    fix lines
    assume "\<forall>l \<in> set lines. header l = None"
    then show "scanBlocks label lines = Map.empty" by (rule none)
  qed
qed

theorem scanBlocks_blocks_witness:
  "header ''  -- name:   get-user-by-id  '' = Some ''get-user-by-id''
   \<and> (\<exists>ws1 ws2 ws3 ws4. ''-- name: put'' = ws1 @ ''--'' @ ws2 @ ''name:'' @ ws3 @ ''put'' @ ws4
         \<and> list_all space ws1 \<and> list_all space ws2 \<and> list_all space ws3 \<and> list_all space ws4)
   \<and> header ''-- name: put'' = Some ''put''
   \<and> header ''-- a comment'' = None \<and> header ''-- name: a b'' = None \<and> header ''-- name:'' = None
   \<and> header ''SELECT *'' = None \<and> header ''FROM users'' = None \<and> header [] = None
   \<and> header ''UPDATE users'' = None \<and> header ''SET x = 1'' = None
   \<and> scanBlocks ''users.sql''
        [''-- a comment'', ''  -- name:   get-user-by-id  '', ''SELECT *'', ''FROM users'', [],
         ''-- name: put'', ''UPDATE users'', ''SET x = 1'']
       = [''get-user-by-id'' \<mapsto> ''SELECT *\<newline>FROM users\<newline>'',
          ''put'' \<mapsto> ''UPDATE users\<newline>SET x = 1'']
   \<and> scanBlocks ''users.sql'' [''-- name: put'', ''SELECT *'', ''-- name: put'', ''UPDATE users'', ''SET x = 1'']
       = [''put'' \<mapsto> ''UPDATE users\<newline>SET x = 1'']
   \<and> scanBlocks ''users.sql'' [''SELECT *'', ''FROM users''] = Map.empty"
proof -
  note T = scanBlocks_blocks [of "''users.sql''"]
  note iffT = T [THEN conjunct1, rule_format]
  note blocksT = T [THEN conjunct2, THEN conjunct2, THEN conjunct1, rule_format]
  note noneT = T [THEN conjunct2, THEN conjunct2, THEN conjunct2, THEN conjunct2, rule_format]
  have h: "header ''SELECT *'' = None" "header ''FROM users'' = None" "header ''-- a comment'' = None"
    "header ''-- name: put'' = Some ''put''" "header [] = None"
    "header ''UPDATE users'' = None" "header ''SET x = 1'' = None"
    "header ''-- name: a b'' = None" "header ''-- name:'' = None"
    by code_simp+
  have s: "list_all space ''  ''" "list_all space '' ''" "list_all space ''   ''"
    "''get-user-by-id'' \<noteq> []" "list_all (\<lambda>c. \<not> space c) ''get-user-by-id''"
    by code_simp+
  have "\<exists>ws1 ws2 ws3 ws4.
      ''  '' @ ''--'' @ '' '' @ ''name:'' @ ''   '' @ ''get-user-by-id'' @ ''  ''
         = ws1 @ ''--'' @ ws2 @ ''name:'' @ ws3 @ ''get-user-by-id'' @ ws4
      \<and> list_all space ws1 \<and> list_all space ws2 \<and> list_all space ws3 \<and> list_all space ws4
      \<and> ''get-user-by-id'' \<noteq> [] \<and> list_all (\<lambda>c. \<not> space c) ''get-user-by-id''"
    apply (intro exI conjI)
          apply (rule refl)
         apply (rule s(1))
        apply (rule s(2))
       apply (rule s(3))
      apply (rule s(1))
     apply (rule s(4))
    apply (rule s(5))
    done
  then have "header (''  '' @ ''--'' @ '' '' @ ''name:'' @ ''   '' @ ''get-user-by-id'' @ ''  '')
      = Some ''get-user-by-id''"
    by (rule iffT [THEN iffD2])
  then have a: "header ''  -- name:   get-user-by-id  '' = Some ''get-user-by-id''" by simp
  from iffT [THEN iffD1, OF h(4)]
  have a2: "\<exists>ws1 ws2 ws3 ws4. ''-- name: put'' = ws1 @ ''--'' @ ws2 @ ''name:'' @ ws3 @ ''put'' @ ws4
         \<and> list_all space ws1 \<and> list_all space ws2 \<and> list_all space ws3 \<and> list_all space ws4"
    by (elim exE conjE) (intro exI conjI, assumption+)
  let ?blocks = "[(''  -- name:   get-user-by-id  '', ''get-user-by-id'', [''SELECT *'', ''FROM users'', []]),
                  (''-- name: put'', ''put'', [''UPDATE users'', ''SET x = 1''])]"
  have p: "\<forall>l \<in> set [''-- a comment'']. header l = None" using h by simp
  have b: "\<forall>(hd, name, body) \<in> set ?blocks. header hd = Some name \<and> (\<forall>l \<in> set body. header l = None)"
    using h a by simp
  from blocksT [OF conjI [OF p b]]
  have c: "scanBlocks ''users.sql''
        [''-- a comment'', ''  -- name:   get-user-by-id  '', ''SELECT *'', ''FROM users'', [],
         ''-- name: put'', ''UPDATE users'', ''SET x = 1'']
       = [''get-user-by-id'' \<mapsto> ''SELECT *\<newline>FROM users\<newline>'',
          ''put'' \<mapsto> ''UPDATE users\<newline>SET x = 1'']"
    by simp
  let ?blocks2 = "[(''-- name: put'', ''put'', [''SELECT *'']),
                  (''-- name: put'', ''put'', [''UPDATE users'', ''SET x = 1''])]"
  have p2: "\<forall>l \<in> set ([]::string list). header l = None" by simp
  have b2: "\<forall>(hd, name, body) \<in> set ?blocks2. header hd = Some name \<and> (\<forall>l \<in> set body. header l = None)"
    using h by simp
  from blocksT [OF conjI [OF p2 b2]]
  have c2: "scanBlocks ''users.sql'' [''-- name: put'', ''SELECT *'', ''-- name: put'', ''UPDATE users'', ''SET x = 1'']
       = [''put'' \<mapsto> ''UPDATE users\<newline>SET x = 1'']"
    by simp
  have d: "scanBlocks ''users.sql'' [''SELECT *'', ''FROM users''] = Map.empty"
    by (rule noneT) (use h in auto)
  show ?thesis using a a2 h c c2 d by simp
qed

section \<open>The rewrite pass around a placeholder\<close>

lemma rewriteRE_at_no_colon: "c \<noteq> CHR '':'' \<Longrightarrow> rewriteRE_at name (c # s) = None"
  by (simp add: rewriteRE_at_def)

lemma Replace_no_colon:
  "list_all (\<lambda>c. c \<noteq> CHR '':'') xs \<Longrightarrow>
     ReplaceAllLiteralString name (xs @ s) repl = xs @ ReplaceAllLiteralString name s repl"
  by (induction xs) (simp_all add: rewriteRE_at_no_colon)

lemma word_chars_no_colon: "list_all word_char xs \<Longrightarrow> list_all (\<lambda>c. c \<noteq> CHR '':'') xs"
  by (induction xs) auto

lemma quote_opt_no_colon: "quote_opt q \<Longrightarrow> list_all (\<lambda>c. c \<noteq> CHR '':'') q"
  by (cases q) (auto simp: quote_opt_def)

lemma opt_quote_append_colon:
  "opt_quote (t @ CHR '':'' # b) = (fst (opt_quote t), snd (opt_quote t) @ CHR '':'' # b)"
  by (cases t) (simp_all add: opt_quote_def)

lemma prefix_append_colon:
  assumes "list_all word_char n"
  shows "prefix n (t @ CHR '':'' # b) \<longleftrightarrow> prefix n t"
proof
  assume "prefix n (t @ CHR '':'' # b)"
  then consider "prefix n t" | us where "n = t @ us" "prefix us (CHR '':'' # b)"
    by (auto simp: prefix_append)
  then show "prefix n t"
  proof cases
    case 1
    then show ?thesis .
  next
    case 2
    show ?thesis
    proof (cases us)
      case Nil
      with 2 show ?thesis by simp
    next
      case (Cons u us')
      with 2 have "u = CHR '':''" by simp
      with 2(1) Cons assms show ?thesis by simp
    qed
  qed
next
  assume "prefix n t"
  then show "prefix n (t @ CHR '':'' # b)" by (rule prefix_prefix)
qed

lemma drop_prefix_append: "prefix n t \<Longrightarrow> drop (length n) (t @ z) = drop (length n) t @ z"
  by (simp add: prefix_length_le)

lemma rewriteRE_at_append_colon:
  assumes "list_all word_char n" and "x \<noteq> []"
  shows "rewriteRE_at n (x @ CHR '':'' # b)
     = map_option (\<lambda>r. r @ CHR '':'' # b) (rewriteRE_at n x)"
proof -
  from assms(2) obtain c s1 where x: "x = c # s1" by (cases x) auto
  show ?thesis
  proof (cases "c = CHR '':''")
    case False
    then show ?thesis unfolding x by (simp add: rewriteRE_at_no_colon)
  next
    case True
    obtain q1 s2 where o: "opt_quote s1 = (q1, s2)" by (cases "opt_quote s1")
    have o': "opt_quote (s1 @ CHR '':'' # b) = (q1, s2 @ CHR '':'' # b)"
      using o by (simp add: opt_quote_append_colon)
    have p2: "prefix n (s2 @ CHR '':'' # b) \<longleftrightarrow> prefix n s2"
      by (rule prefix_append_colon [OF assms(1)])
    have p1: "prefix n (s1 @ CHR '':'' # b) \<longleftrightarrow> prefix n s1"
      by (rule prefix_append_colon [OF assms(1)])
    have oq: "snd (opt_quote (t @ CHR '':'' # b)) = snd (opt_quote t) @ CHR '':'' # b" for t
      by (simp add: opt_quote_append_colon)
    have l: "rewriteRE_at n (x @ CHR '':'' # b) =
       (if prefix n s2 then Some (snd (opt_quote (drop (length n) (s2 @ CHR '':'' # b))))
        else if prefix n s1 then Some (snd (opt_quote (drop (length n) (s1 @ CHR '':'' # b))))
        else None)"
      unfolding x using True by (simp add: rewriteRE_at_def o' p1 p2)
    have r: "rewriteRE_at n x =
       (if prefix n s2 then Some (snd (opt_quote (drop (length n) s2)))
        else if prefix n s1 then Some (snd (opt_quote (drop (length n) s1)))
        else None)"
      unfolding x using True by (simp add: rewriteRE_at_def o)
    show ?thesis unfolding l r
      by (simp add: drop_prefix_append oq del: drop_append)
  qed
qed

lemma Replace_append_colon:
  assumes "list_all word_char n"
  shows "ReplaceAllLiteralString n (a @ CHR '':'' # b) repl
     = ReplaceAllLiteralString n a repl @ ReplaceAllLiteralString n (CHR '':'' # b) repl"
  using assms
proof (induction n a repl rule: ReplaceAllLiteralString.induct)
  case (1 name repl)
  show ?case by simp
next
  case (2 name c s repl)
  have m: "rewriteRE_at name ((c # s) @ CHR '':'' # b)
      = map_option (\<lambda>r. r @ CHR '':'' # b) (rewriteRE_at name (c # s))"
    by (rule rewriteRE_at_append_colon [OF "2.prems"]) simp
  show ?case
  proof (cases "rewriteRE_at name (c # s)")
    case None
    then have n': "rewriteRE_at name (c # s @ CHR '':'' # b) = None" using m by simp
    have "ReplaceAllLiteralString name ((c # s) @ CHR '':'' # b) repl
        = c # ReplaceAllLiteralString name (s @ CHR '':'' # b) repl"
      using n' by simp
    also have "\<dots> = c # ReplaceAllLiteralString name s repl
        @ ReplaceAllLiteralString name (CHR '':'' # b) repl"
      using "2.IH"(1) [OF None "2.prems"] by simp
    also have "\<dots> = ReplaceAllLiteralString name (c # s) repl
        @ ReplaceAllLiteralString name (CHR '':'' # b) repl"
      using None by simp
    finally show ?thesis .
  next
    case (Some rest)
    then have s': "rewriteRE_at name (c # s @ CHR '':'' # b) = Some (rest @ CHR '':'' # b)"
      using m by simp
    have "ReplaceAllLiteralString name ((c # s) @ CHR '':'' # b) repl
        = repl @ ReplaceAllLiteralString name (rest @ CHR '':'' # b) repl"
      using s' by simp
    also have "\<dots> = repl @ ReplaceAllLiteralString name rest repl
        @ ReplaceAllLiteralString name (CHR '':'' # b) repl"
      using "2.IH"(2) [OF Some "2.prems"] by simp
    also have "\<dots> = ReplaceAllLiteralString name (c # s) repl
        @ ReplaceAllLiteralString name (CHR '':'' # b) repl"
      using Some by simp
    finally show ?thesis .
  qed
qed

lemma not_prefix_boundary:
  assumes n: "list_all word_char n" and np: "\<not> prefix n R" and b: "boundary suf"
  shows "\<not> prefix n (R @ suf)"
proof
  assume "prefix n (R @ suf)"
  with np obtain us where us: "n = R @ us" "prefix us suf"
    by (auto simp: prefix_append)
  show False
  proof (cases us)
    case Nil
    with us np show False by simp
  next
    case (Cons u us')
    with us(2) obtain r where "suf = u # r" by (cases suf) auto
    with b have "\<not> word_char u" by (simp add: boundary_def)
    moreover from n us(1) Cons have "word_char u" by simp
    ultimately show False by simp
  qed
qed

lemma rewriteRE_at_placeholder:
  assumes n: "is_identifier n" and R: "is_identifier R" and np: "\<not> prefix n R"
    and q: "quote_opt q" and b: "boundary suf"
  shows "rewriteRE_at n (CHR '':'' # q @ R @ suf) = None"
proof -
  have nw: "list_all word_char n" "n \<noteq> []" using identifier_word_chars [OF n] by simp_all
  have p: "\<not> prefix n (R @ suf)" by (rule not_prefix_boundary [OF nw(1) np b])
  obtain l r where Rl: "R = l # r" "letter l"
    using R by (cases R) (auto simp: is_identifier_def)
  have lq: "\<not> quote l" using Rl(2) letter_word_char quote_not_word_char by blast
  show ?thesis
  proof (cases q)
    case Nil
    have "opt_quote (R @ suf) = ([], R @ suf)"
      unfolding Rl using lq by (simp add: opt_quote_def)
    then show ?thesis using p Nil by (simp add: rewriteRE_at_def)
  next
    case (Cons x xs)
    with q have x: "quote x" "xs = []" by (simp_all add: quote_opt_def)
    have o: "opt_quote (q @ R @ suf) = ([x], R @ suf)"
      unfolding Cons using x by (simp add: opt_quote_def)
    obtain n0 n' where n0: "n = n0 # n'" using nw(2) by (cases n) auto
    with nw(1) have "word_char n0" by simp
    with x(1) have "n0 \<noteq> x" using quote_not_word_char by blast
    then have "\<not> prefix n (q @ R @ suf)" unfolding n0 Cons by simp
    then show ?thesis using p o by (simp add: rewriteRE_at_def)
  qed
qed

lemma Replace_placeholder:
  assumes n: "is_identifier n" and R: "is_identifier R" and np: "\<not> prefix n R"
    and q1: "quote_opt q1" and q2: "quote_opt q2" and b: "boundary (q2 @ suf)"
  shows "ReplaceAllLiteralString n (pre @ CHR '':'' # q1 @ R @ q2 @ suf) repl
     = ReplaceAllLiteralString n pre repl @ CHR '':'' # q1 @ R @ q2
       @ ReplaceAllLiteralString n suf repl"
proof -
  have nw: "list_all word_char n" using identifier_word_chars [OF n] by simp
  have Rw: "list_all word_char R" using identifier_word_chars [OF R] by simp
  have nc: "list_all (\<lambda>c. c \<noteq> CHR '':'') (q1 @ R @ q2)"
    using quote_opt_no_colon [OF q1] quote_opt_no_colon [OF q2] word_chars_no_colon [OF Rw]
    by simp
  have none: "rewriteRE_at n (CHR '':'' # q1 @ R @ q2 @ suf) = None"
    by (rule rewriteRE_at_placeholder [OF n R np q1 b])
  have "ReplaceAllLiteralString n (pre @ CHR '':'' # q1 @ R @ q2 @ suf) repl
      = ReplaceAllLiteralString n pre repl
        @ ReplaceAllLiteralString n (CHR '':'' # q1 @ R @ q2 @ suf) repl"
    by (rule Replace_append_colon [OF nw])
  also have "ReplaceAllLiteralString n (CHR '':'' # q1 @ R @ q2 @ suf) repl
      = CHR '':'' # ReplaceAllLiteralString n ((q1 @ R @ q2) @ suf) repl"
    using none by simp
  also have "ReplaceAllLiteralString n ((q1 @ R @ q2) @ suf) repl
      = (q1 @ R @ q2) @ ReplaceAllLiteralString n suf repl"
    by (rule Replace_no_colon [OF nc])
  finally show ?thesis by simp
qed

lemma boundary_Replace:
  assumes "boundary s"
  shows "boundary (ReplaceAllLiteralString n s (Sprintf_ord k))"
proof (cases s)
  case Nil
  then show ?thesis by (simp add: boundary_def)
next
  case (Cons c r)
  with assms have c: "\<not> word_char c" by (simp add: boundary_def)
  have d: "\<not> word_char CHR ''$''" by (simp add: word_char_def letter_def Let_def)
  show ?thesis
  proof (cases "rewriteRE_at n (c # r)")
    case None
    with Cons c show ?thesis by (simp add: boundary_def)
  next
    case (Some rest)
    with Cons d show ?thesis by (simp add: boundary_def Sprintf_ord_def)
  qed
qed

lemma boundary_quote_Replace:
  assumes q2: "quote_opt q2" and b: "boundary (q2 @ suf)"
  shows "boundary (q2 @ ReplaceAllLiteralString n suf (Sprintf_ord k))"
proof (cases q2)
  case Nil
  with b boundary_Replace show ?thesis by simp
next
  case (Cons x xs)
  with b show ?thesis by (simp add: boundary_def)
qed

lemma rewrite_placeholder:
  assumes "\<forall>entry \<in> set its. is_identifier (fst entry) \<and> \<not> prefix (fst entry) R"
    and "is_identifier R" and "quote_opt q1" and "quote_opt q2" and "boundary (q2 @ suf)"
  shows "\<exists>pre' suf'. rewrite its pre = Inr pre' \<and> rewrite its suf = Inr suf'
     \<and> rewrite its (pre @ CHR '':'' # q1 @ R @ q2 @ suf) = Inr (pre' @ CHR '':'' # q1 @ R @ q2 @ suf')"
  using assms
proof (induction its arbitrary: pre suf)
  case Nil
  show ?case by simp
next
  case (Cons entry its)
  let ?n = "fst entry" and ?repl = "Sprintf_ord (snd entry)"
  from Cons.prems(1) have n: "is_identifier ?n" and np: "\<not> prefix ?n R"
    and rest: "\<forall>entry \<in> set its. is_identifier (fst entry) \<and> \<not> prefix (fst entry) R"
    by simp_all
  have c: "Compile ?n = Some ?n"
    using identifier_word_chars [OF n] by (simp add: Compile_def)
  let ?pre = "ReplaceAllLiteralString ?n pre ?repl"
  let ?suf = "ReplaceAllLiteralString ?n suf ?repl"
  have r: "ReplaceAllLiteralString ?n (pre @ CHR '':'' # q1 @ R @ q2 @ suf) ?repl
      = ?pre @ CHR '':'' # q1 @ R @ q2 @ ?suf"
    by (rule Replace_placeholder [OF n Cons.prems(2) np Cons.prems(3,4,5)])
  have b: "boundary (q2 @ ?suf)"
    by (rule boundary_quote_Replace [OF Cons.prems(4,5)])
  from Cons.IH [OF rest Cons.prems(2,3,4) b, of ?pre] obtain pre' suf' where
    "rewrite its ?pre = Inr pre'" "rewrite its ?suf = Inr suf'"
    "rewrite its (?pre @ CHR '':'' # q1 @ R @ q2 @ ?suf) = Inr (pre' @ CHR '':'' # q1 @ R @ q2 @ suf')"
    by blast
  then show ?case using c r by simp
qed

section \<open>Placeholders the rewrite pass should leave alone\<close>

lemma rewrite_Nil_text:
  "\<forall>entry \<in> set its. is_identifier (fst entry) \<Longrightarrow> rewrite its [] = Inr []"
  by (induction its) (simp_all add: Compile_def identifier_word_chars)

lemma reserved_not_in_mapping: "isReservedName name \<Longrightarrow> name \<notin> fst ` set (mapping_of raw)"
proof
  assume r: "isReservedName name" and "name \<in> fst ` set (mapping_of raw)"
  then have "name \<in> set (map fst (mapping_of raw))" by simp
  then have "name \<in> set (eligible raw)" by (simp add: mapping_of_keys)
  with r show False by (simp add: eligible_def)
qed

lemma not_prefix_entries:
  assumes r: "range_order (mapping_of raw) its"
    and notin: "name \<notin> fst ` set (mapping_of raw)"
    and sp: "\<forall>n \<in> fst ` set (mapping_of raw). \<not> strict_prefix n name"
  shows "\<forall>entry \<in> set its. is_identifier (fst entry) \<and> \<not> prefix (fst entry) name"
proof
  fix entry assume "entry \<in> set its"
  then have e: "entry \<in> set (mapping_of raw)" using range_order_set [OF r] by simp
  then have k: "fst entry \<in> fst ` set (mapping_of raw)" by simp
  with notin have "fst entry \<noteq> name" by auto
  moreover from sp k have "\<not> strict_prefix (fst entry) name" by blast
  ultimately have "\<not> prefix (fst entry) name" by (simp add: strict_prefix_def)
  with mapping_of_is_identifier [OF e]
  show "is_identifier (fst entry) \<and> \<not> prefix (fst entry) name" by simp
qed

lemma NewQuery_rewrite:
  "rewrite its raw = Inr query' \<Longrightarrow>
     NewQuery its raw = Inr \<lparr>Raw = raw, OrdinalQuery = query', Mapping = mapping_of raw\<rparr>"
  by (simp add: NewQuery_def)

text \<open>
  What holds of the reserved names on every text: the reserved names are \<open>MI\<close> and \<open>SS\<close>
  in exactly this spelling, a discovered candidate that is reserved is no key of the
  mapping, and when no key of the mapping is a proper prefix of it, its placeholder stands
  in the rewritten text as it was, between the rewritten text before it and the rewritten
  text after it.
\<close>

theorem reserved_name_discarded:
  assumes "(i, full, name) \<in> set (allMatches 0 raw)" and "isReservedName name"
  shows "(\<forall>n. isReservedName n \<longleftrightarrow> n = ''MI'' \<or> n = ''SS'')
     \<and> name \<notin> fst ` set (mapping_of raw)
     \<and> (\<forall>its. range_order (mapping_of raw) its
           \<and> (\<forall>n \<in> fst ` set (mapping_of raw). \<not> strict_prefix n name) \<longrightarrow>
           (\<exists>q pre' suf'. NewQuery its raw = Inr q \<and> name \<notin> fst ` set (Mapping q)
              \<and> rewrite its (take (Suc i) raw) = Inr pre'
              \<and> rewrite its (drop (i + length full) raw) = Inr suf'
              \<and> OrdinalQuery q = pre' @ tl full @ suf'))
     \<and> (\<forall>its. range_order (mapping_of ''WHERE :MI = 1'') its \<longrightarrow>
           NewQuery its ''WHERE :MI = 1''
             = Inr \<lparr>Raw = ''WHERE :MI = 1'', OrdinalQuery = ''WHERE :MI = 1'', Mapping = []\<rparr>)"
proof -
  have names: "isReservedName n \<longleftrightarrow> n = ''MI'' \<or> n = ''SS''" for n
    by (simp add: isReservedName_def reservedNames_def)
  have notin: "name \<notin> fst ` set (mapping_of raw)"
    by (rule reserved_not_in_mapping [OF assms(2)])
  from allMatchesD [OF assms(1)] obtain pre suf c q1 q2 where
    raw: "raw = pre @ full @ suf" and i: "i = length pre"
    and full: "full = c # CHR '':'' # q1 @ name @ q2"
    and q1: "quote_opt q1" and q2: "quote_opt q2" and id: "is_identifier name"
    and b: "boundary (q2 @ suf)"
    by (auto simp: placeholder_def)
  have t: "take (Suc i) raw = pre @ [c]" unfolding raw i full by simp
  have d: "drop (i + length full) raw = suf" unfolding raw i by simp
  have r: "raw = (pre @ [c]) @ CHR '':'' # q1 @ name @ q2 @ suf" unfolding raw full by simp
  have main: "\<exists>q pre' suf'. NewQuery its raw = Inr q \<and> name \<notin> fst ` set (Mapping q)
              \<and> rewrite its (take (Suc i) raw) = Inr pre'
              \<and> rewrite its (drop (i + length full) raw) = Inr suf'
              \<and> OrdinalQuery q = pre' @ tl full @ suf'"
    if ro: "range_order (mapping_of raw) its"
      and sp: "\<forall>n \<in> fst ` set (mapping_of raw). \<not> strict_prefix n name" for its
  proof -
    have e: "\<forall>entry \<in> set its. is_identifier (fst entry) \<and> \<not> prefix (fst entry) name"
      by (rule not_prefix_entries [OF ro notin sp])
    from rewrite_placeholder [OF e id q1 q2 b, of "pre @ [c]"] obtain pre' suf' where
      p: "rewrite its (pre @ [c]) = Inr pre'" and s: "rewrite its suf = Inr suf'"
      and w: "rewrite its ((pre @ [c]) @ CHR '':'' # q1 @ name @ q2 @ suf)
          = Inr (pre' @ CHR '':'' # q1 @ name @ q2 @ suf')"
      by blast
    let ?q = "\<lparr>Raw = raw, OrdinalQuery = pre' @ CHR '':'' # q1 @ name @ q2 @ suf',
        Mapping = mapping_of raw\<rparr>"
    have "NewQuery its raw = Inr ?q"
      by (rule NewQuery_rewrite) (use w r in simp)
    moreover have "name \<notin> fst ` set (Mapping ?q)" using notin by simp
    moreover have "OrdinalQuery ?q = pre' @ tl full @ suf'" unfolding full by simp
    ultimately show ?thesis using p s unfolding t d by blast
  qed
  have m: "mapping_of ''WHERE :MI = 1'' = []" by code_simp
  have n: "NewQuery [] ''WHERE :MI = 1''
      = Inr \<lparr>Raw = ''WHERE :MI = 1'', OrdinalQuery = ''WHERE :MI = 1'', Mapping = []\<rparr>"
    by code_simp
  have ex: "NewQuery its ''WHERE :MI = 1''
      = Inr \<lparr>Raw = ''WHERE :MI = 1'', OrdinalQuery = ''WHERE :MI = 1'', Mapping = []\<rparr>"
    if "range_order (mapping_of ''WHERE :MI = 1'') its" for its
    using that n unfolding m by (simp add: range_order_def)
  show ?thesis
  proof (intro conjI allI impI)
    fix n show "isReservedName n \<longleftrightarrow> n = ''MI'' \<or> n = ''SS''" by (rule names)
  next
    show "name \<notin> fst ` set (mapping_of raw)" by (rule notin)
  next
    fix its
    assume "range_order (mapping_of raw) its
           \<and> (\<forall>n \<in> fst ` set (mapping_of raw). \<not> strict_prefix n name)"
    then show "\<exists>q pre' suf'. NewQuery its raw = Inr q \<and> name \<notin> fst ` set (Mapping q)
              \<and> rewrite its (take (Suc i) raw) = Inr pre'
              \<and> rewrite its (drop (i + length full) raw) = Inr suf'
              \<and> OrdinalQuery q = pre' @ tl full @ suf'"
      using main by blast
  next
    fix its
    assume "range_order (mapping_of ''WHERE :MI = 1'') its"
    then show "NewQuery its ''WHERE :MI = 1''
             = Inr \<lparr>Raw = ''WHERE :MI = 1'', OrdinalQuery = ''WHERE :MI = 1'', Mapping = []\<rparr>"
      by (rule ex)
  qed
qed

text \<open>
  Claim C6: with the exclusion of reserved names, a discovered candidate equal to \<open>MI\<close> or
  \<open>SS\<close> gets no ordinal, is absent from the mapping and is not rewritten. The code breaks
  the last part: the time format below holds the reserved candidate \<open>:MI\<close>, which is
  discovered and discarded, and the rewrite pass for the parameter \<open>M\<close> turns it into
  \<open>$1I\<close>, since the rewrite pattern of a name does not end at the end of the identifier.
\<close>

theorem reserved_name_partly_rewritten:
  "(23, ''4:MI'', ''MI'') \<in> set (allMatches 0 ''SELECT to_char(:M, 'HH24:MI:SS')'')
   \<and> isReservedName ''MI''
   \<and> range_order (mapping_of ''SELECT to_char(:M, 'HH24:MI:SS')'') [(''M'', 1)]
   \<and> NewQuery [(''M'', 1)] ''SELECT to_char(:M, 'HH24:MI:SS')''
       = Inr \<lparr>Raw = ''SELECT to_char(:M, 'HH24:MI:SS')'',
              OrdinalQuery = ''SELECT to_char($1, 'HH24$1I:SS')'',
              Mapping = [(''M'', 1)]\<rparr>"
  by code_simp

theorem reserved_name_discarded_witness:
  "(23, ''4:MI'', ''MI'') \<in> set (allMatches 0 ''SELECT to_char(ts, 'HH24:MI:SS') WHERE id = :id'')
   \<and> isReservedName ''MI''
   \<and> range_order (mapping_of ''SELECT to_char(ts, 'HH24:MI:SS') WHERE id = :id'') [(''id'', 1)]
   \<and> (\<forall>n \<in> fst ` set (mapping_of ''SELECT to_char(ts, 'HH24:MI:SS') WHERE id = :id'').
         \<not> strict_prefix n ''MI'')
   \<and> NewQuery [(''id'', 1)] ''SELECT to_char(ts, 'HH24:MI:SS') WHERE id = :id''
       = Inr \<lparr>Raw = ''SELECT to_char(ts, 'HH24:MI:SS') WHERE id = :id'',
              OrdinalQuery = ''SELECT to_char(ts, 'HH24:MI:SS') WHERE id = $1'',
              Mapping = [(''id'', 1)]\<rparr>
   \<and> (\<exists>q pre' suf'. NewQuery [(''id'', 1)] ''SELECT to_char(ts, 'HH24:MI:SS') WHERE id = :id'' = Inr q
         \<and> OrdinalQuery q = pre' @ '':MI'' @ suf')"
proof -
  let ?raw = "''SELECT to_char(ts, 'HH24:MI:SS') WHERE id = :id''"
  have a: "(23, ''4:MI'', ''MI'') \<in> set (allMatches 0 ?raw)" by code_simp
  have b: "isReservedName ''MI''" by code_simp
  have m: "mapping_of ?raw = [(''id'', 1)]" by code_simp
  have c: "range_order (mapping_of ?raw) [(''id'', 1)]" unfolding m by (simp add: range_order_def)
  have d: "\<forall>n \<in> fst ` set (mapping_of ?raw). \<not> strict_prefix n ''MI''" unfolding m by simp
  have e: "NewQuery [(''id'', 1)] ?raw
       = Inr \<lparr>Raw = ?raw, OrdinalQuery = ''SELECT to_char(ts, 'HH24:MI:SS') WHERE id = $1'',
              Mapping = [(''id'', 1)]\<rparr>"
    by code_simp
  from reserved_name_discarded [OF a b] c d
  have "\<exists>q pre' suf'. NewQuery [(''id'', 1)] ?raw = Inr q \<and> ''MI'' \<notin> fst ` set (Mapping q)
              \<and> rewrite [(''id'', 1)] (take (Suc 23) ?raw) = Inr pre'
              \<and> rewrite [(''id'', 1)] (drop (23 + length ''4:MI'') ?raw) = Inr suf'
              \<and> OrdinalQuery q = pre' @ tl ''4:MI'' @ suf'"
    by blast
  then have "\<exists>q pre' suf'. NewQuery [(''id'', 1)] ?raw = Inr q \<and> OrdinalQuery q = pre' @ '':MI'' @ suf'"
    by auto
  with a b c d e show ?thesis by blast
qed

lemma leading_split:
  assumes eq: "u @ CHR '':'' # w = CHR '':'' # name @ rest" and u: "u \<noteq> []"
    and nc: "list_all (\<lambda>c. c \<noteq> CHR '':'') name"
  shows "\<exists>us. u = CHR '':'' # name @ us \<and> rest = us @ CHR '':'' # w"
proof -
  from u eq obtain u' where u': "u = CHR '':'' # u'" by (cases u) auto
  with eq have e: "u' @ CHR '':'' # w = name @ rest" by simp
  then consider vs where "u' = name @ vs" "vs @ CHR '':'' # w = rest"
    | vs where "u' @ vs = name" "CHR '':'' # w = vs @ rest"
    by (auto simp: append_eq_append_conv2)
  then show ?thesis
  proof cases
    case 1
    with u' show ?thesis by auto
  next
    case 2
    show ?thesis
    proof (cases vs)
      case Nil
      with 2 u' show ?thesis by auto
    next
      case (Cons v vs')
      with 2(2) have "v = CHR '':''" by simp
      with 2(1) Cons have "CHR '':'' \<in> set name" by auto
      with nc show ?thesis by (auto simp: list_all_iff)
    qed
  qed
qed

lemma leading_match:
  assumes id: "is_identifier name"
    and m: "(i, full, n) \<in> set (allMatches 0 (CHR '':'' # name @ rest))"
  shows "length name \<le> i \<and> sublist n rest"
proof -
  from allMatchesD [OF m] obtain pre suf c q1 q2 where
    raw: "CHR '':'' # name @ rest = pre @ full @ suf" and i: "i = length pre"
    and full: "full = c # CHR '':'' # q1 @ n @ q2"
    by (auto simp: placeholder_def)
  have nc: "list_all (\<lambda>c. c \<noteq> CHR '':'') name"
    using identifier_word_chars [OF id] word_chars_no_colon by blast
  have "(pre @ [c]) @ CHR '':'' # (q1 @ n @ q2 @ suf) = CHR '':'' # name @ rest"
    unfolding raw full by simp
  from leading_split [OF this _ nc] obtain us where
    us: "pre @ [c] = CHR '':'' # name @ us" and rest: "rest = us @ CHR '':'' # q1 @ n @ q2 @ suf"
    by auto
  from us have "length (pre @ [c]) = length (CHR '':'' # name @ us)" by simp
  then have "length name \<le> i" unfolding i by simp
  moreover have "rest = (us @ CHR '':'' # q1) @ n @ (q2 @ suf)" unfolding rest by simp
  then have "sublist n rest" unfolding sublist_def by blast
  ultimately show ?thesis by simp
qed

text \<open>
  What holds of a placeholder at the very start of a text, whose name occurs nowhere else
  in it: every match of the discovery pattern starts at or after the last character of
  that name, the name is no key of the mapping, and when no key of the mapping is a proper
  prefix of the name, the placeholder stands at the start of the rewritten text as it was.
\<close>

theorem leading_placeholder_not_discovered:
  assumes "is_identifier name" and "boundary rest" and "\<not> sublist name rest"
  shows "(\<forall>(i, full, n) \<in> set (allMatches 0 (CHR '':'' # name @ rest)). length name \<le> i)
     \<and> name \<notin> fst ` set (mapping_of (CHR '':'' # name @ rest))
     \<and> (\<forall>its. range_order (mapping_of (CHR '':'' # name @ rest)) its
           \<and> (\<forall>n \<in> fst ` set (mapping_of (CHR '':'' # name @ rest)). \<not> strict_prefix n name) \<longrightarrow>
           (\<exists>q rest'. NewQuery its (CHR '':'' # name @ rest) = Inr q
              \<and> name \<notin> fst ` set (Mapping q)
              \<and> rewrite its rest = Inr rest'
              \<and> OrdinalQuery q = CHR '':'' # name @ rest'))
     \<and> (\<forall>its. range_order (mapping_of '':id = 1'') its \<longrightarrow>
           NewQuery its '':id = 1''
             = Inr \<lparr>Raw = '':id = 1'', OrdinalQuery = '':id = 1'', Mapping = []\<rparr>)"
proof -
  let ?raw = "CHR '':'' # name @ rest"
  have pos: "length name \<le> i" if "(i, full, n) \<in> set (allMatches 0 ?raw)" for i full n
    using leading_match [OF assms(1) that] by simp
  have notin: "name \<notin> fst ` set (mapping_of ?raw)"
  proof
    assume "name \<in> fst ` set (mapping_of ?raw)"
    then have "name \<in> set (map fst (mapping_of ?raw))" by simp
    then have "name \<in> set (eligible ?raw)" by (simp add: mapping_of_keys)
    then have "name \<in> snd ` snd ` set (allMatches 0 ?raw)"
      by (auto simp: eligible_def FindAllStringSubmatch_def)
    then obtain i full where "(i, full, name) \<in> set (allMatches 0 ?raw)" by force
    from leading_match [OF assms(1) this] assms(3) show False by simp
  qed
  have main: "\<exists>q rest'. NewQuery its ?raw = Inr q \<and> name \<notin> fst ` set (Mapping q)
              \<and> rewrite its rest = Inr rest' \<and> OrdinalQuery q = CHR '':'' # name @ rest'"
    if ro: "range_order (mapping_of ?raw) its"
      and sp: "\<forall>n \<in> fst ` set (mapping_of ?raw). \<not> strict_prefix n name" for its
  proof -
    have e: "\<forall>entry \<in> set its. is_identifier (fst entry) \<and> \<not> prefix (fst entry) name"
      by (rule not_prefix_entries [OF ro notin sp])
    then have e': "\<forall>entry \<in> set its. is_identifier (fst entry)" by simp
    have q: "quote_opt []" by (simp add: quote_opt_def)
    have b: "boundary ([] @ rest)" using assms(2) by simp
    from rewrite_placeholder [OF e assms(1) q q b, of "[]"] obtain pre' rest' where
      p: "rewrite its [] = Inr pre'" and s: "rewrite its rest = Inr rest'"
      and w: "rewrite its ([] @ CHR '':'' # [] @ name @ [] @ rest)
          = Inr (pre' @ CHR '':'' # [] @ name @ [] @ rest')"
      by blast
    from p rewrite_Nil_text [OF e'] have "pre' = []" by simp
    with w have w': "rewrite its ?raw = Inr (CHR '':'' # name @ rest')" by simp
    let ?q = "\<lparr>Raw = ?raw, OrdinalQuery = CHR '':'' # name @ rest', Mapping = mapping_of ?raw\<rparr>"
    have "NewQuery its ?raw = Inr ?q" by (rule NewQuery_rewrite [OF w'])
    moreover have "name \<notin> fst ` set (Mapping ?q)" using notin by simp
    moreover have "OrdinalQuery ?q = CHR '':'' # name @ rest'" by simp
    ultimately show ?thesis using s by blast
  qed
  have m: "mapping_of '':id = 1'' = []" by code_simp
  have n: "NewQuery [] '':id = 1''
      = Inr \<lparr>Raw = '':id = 1'', OrdinalQuery = '':id = 1'', Mapping = []\<rparr>"
    by code_simp
  have ex: "NewQuery its '':id = 1''
      = Inr \<lparr>Raw = '':id = 1'', OrdinalQuery = '':id = 1'', Mapping = []\<rparr>"
    if "range_order (mapping_of '':id = 1'') its" for its
    using that n unfolding m by (simp add: range_order_def)
  show ?thesis
  proof (intro conjI allI impI)
    show "\<forall>(i, full, n) \<in> set (allMatches 0 ?raw). length name \<le> i"
      using pos by blast
  next
    show "name \<notin> fst ` set (mapping_of ?raw)" by (rule notin)
  next
    fix its
    assume "range_order (mapping_of ?raw) its
           \<and> (\<forall>n \<in> fst ` set (mapping_of ?raw). \<not> strict_prefix n name)"
    then show "\<exists>q rest'. NewQuery its ?raw = Inr q \<and> name \<notin> fst ` set (Mapping q)
              \<and> rewrite its rest = Inr rest' \<and> OrdinalQuery q = CHR '':'' # name @ rest'"
      using main by blast
  next
    fix its
    assume "range_order (mapping_of '':id = 1'') its"
    then show "NewQuery its '':id = 1''
             = Inr \<lparr>Raw = '':id = 1'', OrdinalQuery = '':id = 1'', Mapping = []\<rparr>"
      by (rule ex)
  qed
qed

text \<open>
  Claim C10: a placeholder at the first character of the text, whose name occurs nowhere
  else, is not discovered, gets no ordinal and is left as it is in \<open>OrdinalQuery\<close>. The
  code breaks the last part: \<open>:ids\<close> at the start is not discovered, and the rewrite pass
  for the parameter \<open>id\<close> turns it into \<open>$1s\<close>.
\<close>

theorem leading_placeholder_partly_rewritten:
  "is_identifier ''ids'' \<and> boundary '' = :id'' \<and> \<not> sublist ''ids'' '' = :id''
   \<and> range_order (mapping_of '':ids = :id'') [(''id'', 1)]
   \<and> NewQuery [(''id'', 1)] '':ids = :id''
       = Inr \<lparr>Raw = '':ids = :id'', OrdinalQuery = ''$1s = $1'', Mapping = [(''id'', 1)]\<rparr>"
  by code_simp

theorem leading_placeholder_not_discovered_witness:
  "is_identifier ''id'' \<and> boundary '' = 1 AND name = :name'' \<and> \<not> sublist ''id'' '' = 1 AND name = :name''
   \<and> range_order (mapping_of '':id = 1 AND name = :name'') [(''name'', 1)]
   \<and> (\<forall>n \<in> fst ` set (mapping_of '':id = 1 AND name = :name''). \<not> strict_prefix n ''id'')
   \<and> ''id'' \<notin> fst ` set (mapping_of '':id = 1 AND name = :name'')
   \<and> NewQuery [(''name'', 1)] '':id = 1 AND name = :name''
       = Inr \<lparr>Raw = '':id = 1 AND name = :name'', OrdinalQuery = '':id = 1 AND name = $1'',
              Mapping = [(''name'', 1)]\<rparr>
   \<and> (\<exists>q rest'. NewQuery [(''name'', 1)] '':id = 1 AND name = :name'' = Inr q
         \<and> OrdinalQuery q = '':id'' @ rest')"
proof -
  let ?rest = "'' = 1 AND name = :name''"
  have a: "is_identifier ''id''" "boundary ?rest" "\<not> sublist ''id'' ?rest" by code_simp+
  have m: "mapping_of (CHR '':'' # ''id'' @ ?rest) = [(''name'', 1)]" by code_simp
  have c: "range_order (mapping_of (CHR '':'' # ''id'' @ ?rest)) [(''name'', 1)]"
    unfolding m by (simp add: range_order_def)
  have d: "\<forall>n \<in> fst ` set (mapping_of (CHR '':'' # ''id'' @ ?rest)). \<not> strict_prefix n ''id''"
    unfolding m by simp
  have e: "NewQuery [(''name'', 1)] '':id = 1 AND name = :name''
       = Inr \<lparr>Raw = '':id = 1 AND name = :name'', OrdinalQuery = '':id = 1 AND name = $1'',
              Mapping = [(''name'', 1)]\<rparr>"
    by code_simp
  from leading_placeholder_not_discovered [OF a] c d
  have n: "''id'' \<notin> fst ` set (mapping_of (CHR '':'' # ''id'' @ ?rest))"
    and "\<exists>q rest'. NewQuery [(''name'', 1)] (CHR '':'' # ''id'' @ ?rest) = Inr q
              \<and> ''id'' \<notin> fst ` set (Mapping q)
              \<and> rewrite [(''name'', 1)] ?rest = Inr rest'
              \<and> OrdinalQuery q = CHR '':'' # ''id'' @ rest'"
    by blast+
  then have "\<exists>q rest'. NewQuery [(''name'', 1)] '':id = 1 AND name = :name'' = Inr q
         \<and> OrdinalQuery q = '':id'' @ rest'"
    by auto
  with a c d e n show ?thesis by simp
qed

text \<open>
  Claim C1: the rewrite step of \<open>NewQuery\<close> replaces exactly the occurrences of the shape
  matched in discovery, so that a name that extends another parameter name is never partly
  replaced and no colon of a type cast is rewritten. The code does otherwise, its rewrite
  pattern having neither the character before the colon nor the end of the identifier:
  with the parameters \<open>id\<close> and \<open>ids\<close> visited in this order, \<open>:ids\<close> becomes \<open>$1s\<close>, and
  with a parameter \<open>n\<close> the cast \<open>x::n\<close> becomes \<open>x:$1\<close>.
\<close>

theorem rewrite_not_exact:
  "range_order (mapping_of ''WHERE id = :id OR id IN (:ids)'') [(''id'', 1), (''ids'', 2)]
   \<and> NewQuery [(''id'', 1), (''ids'', 2)] ''WHERE id = :id OR id IN (:ids)''
       = Inr \<lparr>Raw = ''WHERE id = :id OR id IN (:ids)'',
              OrdinalQuery = ''WHERE id = $1 OR id IN ($1s)'',
              Mapping = [(''id'', 1), (''ids'', 2)]\<rparr>
   \<and> range_order (mapping_of ''SELECT :n::integer, x::n'') [(''n'', 1)]
   \<and> NewQuery [(''n'', 1)] ''SELECT :n::integer, x::n''
       = Inr \<lparr>Raw = ''SELECT :n::integer, x::n'',
              OrdinalQuery = ''SELECT $1::integer, x:$1'',
              Mapping = [(''n'', 1)]\<rparr>"
  by code_simp

text \<open>
  Claim C7: \<open>NewQuery\<close> is deterministic, whatever order the rewrite loop visits the
  mapping in. The code is not: both orders below visit every entry of the mapping of the
  text once, \<open>Raw\<close> and \<open>Mapping\<close> agree, and the two values of \<open>OrdinalQuery\<close> differ.
\<close>

theorem NewQuery_order_dependent:
  "range_order (mapping_of ''WHERE a = :user AND b = :user_id'') [(''user'', 1), (''user_id'', 2)]
   \<and> range_order (mapping_of ''WHERE a = :user AND b = :user_id'') [(''user_id'', 2), (''user'', 1)]
   \<and> NewQuery [(''user'', 1), (''user_id'', 2)] ''WHERE a = :user AND b = :user_id''
       = Inr \<lparr>Raw = ''WHERE a = :user AND b = :user_id'',
              OrdinalQuery = ''WHERE a = $1 AND b = $1_id'',
              Mapping = [(''user'', 1), (''user_id'', 2)]\<rparr>
   \<and> NewQuery [(''user_id'', 2), (''user'', 1)] ''WHERE a = :user AND b = :user_id''
       = Inr \<lparr>Raw = ''WHERE a = :user AND b = :user_id'',
              OrdinalQuery = ''WHERE a = $1 AND b = $2'',
              Mapping = [(''user'', 1), (''user_id'', 2)]\<rparr>"
  by code_simp

section \<open>Loading into the store\<close>

lemma loadQueriesFromFile_collision:
  assumes "distinct (map fst newQueries)"
    and "\<forall>(name, query) \<in> set newQueries. \<exists>q. newQuery name query = Inr q"
    and "\<exists>name \<in> fst ` set newQueries. s name \<noteq> None"
  shows "\<exists>visited name query rest s'.
      newQueries = visited @ (name, query) # rest
    \<and> (\<forall>n \<in> fst ` set visited. s n = None) \<and> s name \<noteq> None
    \<and> loadQueriesFromFile newQuery newQueries s = Inr (Some (AlreadyExists name), s')
    \<and> (\<forall>n. s n \<noteq> None \<longrightarrow> s' n = s n)
    \<and> dom s' = dom s \<union> fst ` set visited
    \<and> (\<forall>(n, raw) \<in> set visited. \<exists>q. newQuery n raw = Inr q \<and> s' n = Some q)"
  using assms
proof (induction newQueries arbitrary: s)
  case Nil
  then show ?case by simp
next
  case (Cons entry newQueries)
  obtain n0 raw0 where entry: "entry = (n0, raw0)" by (cases entry)
  show ?case
  proof (cases "s n0 = None")
    case False
    then have "loadQueriesFromFile newQuery (entry # newQueries) s = Inr (Some (AlreadyExists n0), s)"
      unfolding entry by simp
    with False entry have "entry # newQueries = [] @ (n0, raw0) # newQueries
      \<and> (\<forall>n \<in> fst ` set []. s n = None) \<and> s n0 \<noteq> None
      \<and> loadQueriesFromFile newQuery (entry # newQueries) s = Inr (Some (AlreadyExists n0), s)
      \<and> (\<forall>n. s n \<noteq> None \<longrightarrow> s n = s n)
      \<and> dom s = dom s \<union> fst ` set []
      \<and> (\<forall>(n, raw) \<in> set []. \<exists>q. newQuery n raw = Inr q \<and> s n = Some q)"
      by simp
    then show ?thesis by (intro exI)
  next
    case True
    from Cons.prems(2) entry obtain q0 where q0: "newQuery n0 raw0 = Inr q0" by auto
    let ?s1 = "s(n0 \<mapsto> q0)"
    have step: "loadQueriesFromFile newQuery (entry # newQueries) s
        = loadQueriesFromFile newQuery newQueries ?s1"
      unfolding entry using True q0 by simp
    from Cons.prems(1) entry have d: "distinct (map fst newQueries)"
      and fresh: "n0 \<notin> fst ` set newQueries" by simp_all
    from Cons.prems(2) have ok: "\<forall>(name, query) \<in> set newQueries.
        \<exists>q. newQuery name query = Inr q" by simp
    from Cons.prems(3) True entry obtain c where c: "c \<in> fst ` set newQueries" "s c \<noteq> None"
      by auto
    with fresh have "?s1 c \<noteq> None" by auto
    with c(1) have col: "\<exists>name \<in> fst ` set newQueries. ?s1 name \<noteq> None" by blast
    from Cons.IH [OF d ok col] obtain visited name query rest s' where
      split: "newQueries = visited @ (name, query) # rest"
      and vis: "\<forall>n \<in> fst ` set visited. ?s1 n = None"
      and name: "?s1 name \<noteq> None"
      and res: "loadQueriesFromFile newQuery newQueries ?s1 = Inr (Some (AlreadyExists name), s')"
      and keep: "\<forall>n. ?s1 n \<noteq> None \<longrightarrow> s' n = ?s1 n"
      and dom: "dom s' = dom ?s1 \<union> fst ` set visited"
      and new: "\<forall>(n, raw) \<in> set visited. \<exists>q. newQuery n raw = Inr q \<and> s' n = Some q"
      by (elim exE conjE) (rule that)
    have "name \<in> fst ` set newQueries" unfolding split by force
    with fresh have ne: "name \<noteq> n0" by auto
    have 1: "entry # newQueries = ((n0, raw0) # visited) @ (name, query) # rest"
      unfolding entry split by simp
    have 2: "\<forall>n \<in> fst ` set ((n0, raw0) # visited). s n = None"
      using vis True by (auto split: if_splits)
    have 3: "s name \<noteq> None" using name ne by simp
    have 4: "loadQueriesFromFile newQuery (entry # newQueries) s = Inr (Some (AlreadyExists name), s')"
      unfolding step by (rule res)
    have 5: "\<forall>n. s n \<noteq> None \<longrightarrow> s' n = s n"
    proof (intro allI impI)
      fix n assume n: "s n \<noteq> None"
      with True have "n \<noteq> n0" by auto
      with n keep show "s' n = s n" by (metis fun_upd_other)
    qed
    have 6: "dom s' = dom s \<union> fst ` set ((n0, raw0) # visited)"
      unfolding dom by auto
    have "s' n0 = Some q0" using keep by (metis fun_upd_same option.distinct(1))
    with q0 new have 7: "\<forall>(n, raw) \<in> set ((n0, raw0) # visited).
        \<exists>q. newQuery n raw = Inr q \<and> s' n = Some q"
      by simp
    show ?thesis
      apply (intro exI conjI)
            apply (rule 1)
           apply (rule 2)
          apply (rule 3)
         apply (rule 4)
        apply (rule 5)
       apply (rule 6)
      apply (rule 7)
      done
  qed
qed

text \<open>
  Claim C2, amended. When a scanned name is already in the store, \<open>loadQueriesFromFile\<close>
  returns the error \<open>AlreadyExists\<close> for the first such name that the loop visits. No
  entry that was in the store before the call is changed or removed, but the load is not
  atomic: the blocks visited before that name have been committed, each with the result
  of its call of \<open>NewQuery\<close> (every such call is taken to return, which \<open>NewQuery_Inr\<close>
  and \<open>NewQuery_old_Inr\<close> show for the two versions of the file), and nothing else has.
  The store is unchanged if and only if the colliding name is visited first.
\<close>

theorem loadQueriesFromFile_duplicate:
  assumes "distinct (map fst newQueries)"
    and "\<forall>(name, query) \<in> set newQueries. \<exists>q. newQuery name query = Inr q"
    and "\<exists>name \<in> fst ` set newQueries. s name \<noteq> None"
  shows "\<exists>visited name query rest s'.
      newQueries = visited @ (name, query) # rest
    \<and> (\<forall>n \<in> fst ` set visited. s n = None) \<and> s name \<noteq> None
    \<and> loadQueriesFromFile newQuery newQueries s = Inr (Some (AlreadyExists name), s')
    \<and> (\<forall>n. s n \<noteq> None \<longrightarrow> s' n = s n)
    \<and> dom s' = dom s \<union> fst ` set visited
    \<and> (\<forall>(n, raw) \<in> set visited. \<exists>q. newQuery n raw = Inr q \<and> s' n = Some q)
    \<and> (s' = s \<longleftrightarrow> visited = [])"
proof -
  from loadQueriesFromFile_collision [OF assms] obtain visited name query rest s' where
    f: "newQueries = visited @ (name, query) # rest"
      "\<forall>n \<in> fst ` set visited. s n = None" "s name \<noteq> None"
      "loadQueriesFromFile newQuery newQueries s = Inr (Some (AlreadyExists name), s')"
      "\<forall>n. s n \<noteq> None \<longrightarrow> s' n = s n"
      "dom s' = dom s \<union> fst ` set visited"
      "\<forall>(n, raw) \<in> set visited. \<exists>q. newQuery n raw = Inr q \<and> s' n = Some q"
    by (elim exE conjE) (rule that)
  have e: "s' = s" if "visited = []"
  proof
    fix n
    show "s' n = s n"
    proof (cases "s n")
      case None
      then have "n \<notin> dom s'" using f(6) that by auto
      with None show ?thesis by auto
    next
      case (Some q)
      with f(5) show ?thesis by simp
    qed
  qed
  have e2: "visited = []" if "s' = s"
  proof (cases visited)
    case Nil
    then show ?thesis .
  next
    case (Cons v vs)
    then have "fst v \<in> fst ` set visited" by simp
    with f(2) f(6) have "s (fst v) = None" "fst v \<in> dom s'" by auto
    with that show ?thesis by auto
  qed
  from e e2 have e': "s' = s \<longleftrightarrow> visited = []" by blast
  show ?thesis
    apply (intro exI conjI)
           apply (rule f(1))
          apply (rule f(2))
         apply (rule f(3))
        apply (rule f(4))
       apply (rule f(5))
      apply (rule f(6))
     apply (rule f(7))
    apply (rule e')
    done
qed

text \<open>
  The claim as first stated (the store is unchanged when the error is returned) fails:
  with \<open>q2\<close> in the store and the blocks visited in the order \<open>q1\<close>, \<open>q2\<close>, the error is
  returned and \<open>q1\<close> stays in the store.
\<close>

theorem loadQueriesFromFile_partial_commit:
  "loadQueriesFromFile (\<lambda>name. NewQuery [])
     [(''q1'', ''SELECT 1''), (''q2'', ''SELECT 2'')]
     [''q2'' \<mapsto> \<lparr>Raw = ''SELECT 0'', OrdinalQuery = ''SELECT 0'', Mapping = []\<rparr>]
   = Inr (Some (AlreadyExists ''q2''),
          [''q2'' \<mapsto> \<lparr>Raw = ''SELECT 0'', OrdinalQuery = ''SELECT 0'', Mapping = []\<rparr>,
           ''q1'' \<mapsto> \<lparr>Raw = ''SELECT 1'', OrdinalQuery = ''SELECT 1'', Mapping = []\<rparr>])
   \<and> [''q2'' \<mapsto> \<lparr>Raw = ''SELECT 0'', OrdinalQuery = ''SELECT 0'', Mapping = []\<rparr>,
       ''q1'' \<mapsto> \<lparr>Raw = ''SELECT 1'', OrdinalQuery = ''SELECT 1'', Mapping = []\<rparr>] ''q1''
     \<noteq> [''q2'' \<mapsto> \<lparr>Raw = ''SELECT 0'', OrdinalQuery = ''SELECT 0'', Mapping = []\<rparr>] ''q1''"
proof -
  have n: "NewQuery [] ''SELECT 1''
      = Inr \<lparr>Raw = ''SELECT 1'', OrdinalQuery = ''SELECT 1'', Mapping = []\<rparr>"
    by code_simp
  show ?thesis by (simp add: n)
qed

theorem loadQueriesFromFile_duplicate_witness:
  "distinct (map fst [(''q2'', ''SELECT :a''), (''q1'', ''SELECT 1'')])
   \<and> NewQuery [(''a'', 1)] ''SELECT :a''
       = Inr \<lparr>Raw = ''SELECT :a'', OrdinalQuery = ''SELECT $1'', Mapping = [(''a'', 1)]\<rparr>
   \<and> NewQuery [] ''SELECT 1''
       = Inr \<lparr>Raw = ''SELECT 1'', OrdinalQuery = ''SELECT 1'', Mapping = []\<rparr>
   \<and> (\<exists>s'. loadQueriesFromFile (\<lambda>name. NewQuery (if name = ''q2'' then [(''a'', 1)] else []))
        [(''q2'', ''SELECT :a''), (''q1'', ''SELECT 1'')]
        [''q1'' \<mapsto> \<lparr>Raw = ''SELECT 0'', OrdinalQuery = ''SELECT 0'', Mapping = []\<rparr>]
      = Inr (Some (AlreadyExists ''q1''), s')
      \<and> s' ''q1'' = Some \<lparr>Raw = ''SELECT 0'', OrdinalQuery = ''SELECT 0'', Mapping = []\<rparr>
      \<and> s' ''q2'' = Some \<lparr>Raw = ''SELECT :a'', OrdinalQuery = ''SELECT $1'', Mapping = [(''a'', 1)]\<rparr>)"
proof -
  let ?nq = "\<lambda>name. NewQuery (if name = ''q2'' then [(''a'', 1)] else [])"
  let ?new = "[(''q2'', ''SELECT :a''), (''q1'', ''SELECT 1'')]"
  let ?s = "[''q1'' \<mapsto> \<lparr>Raw = ''SELECT 0'', OrdinalQuery = ''SELECT 0'', Mapping = []\<rparr>]"
  have d: "distinct (map fst ?new)" by simp
  have r: "NewQuery [(''a'', 1)] ''SELECT :a''
       = Inr \<lparr>Raw = ''SELECT :a'', OrdinalQuery = ''SELECT $1'', Mapping = [(''a'', 1)]\<rparr>"
    "NewQuery [] ''SELECT 1''
       = Inr \<lparr>Raw = ''SELECT 1'', OrdinalQuery = ''SELECT 1'', Mapping = []\<rparr>"
    by code_simp+
  then have ok: "\<forall>(name, query) \<in> set ?new. \<exists>q. ?nq name query = Inr q"
    by simp
  have c: "\<exists>name \<in> fst ` set ?new. ?s name \<noteq> None" by simp
  from loadQueriesFromFile_duplicate [OF d ok c] obtain visited name query rest s' where
    sp: "?new = visited @ (name, query) # rest"
    and l: "loadQueriesFromFile ?nq ?new ?s = Inr (Some (AlreadyExists name), s')"
    and n: "?s name \<noteq> None" and k: "\<forall>n. ?s n \<noteq> None \<longrightarrow> s' n = ?s n"
    and v: "\<forall>(n, raw) \<in> set visited. \<exists>q. ?nq n raw = Inr q \<and> s' n = Some q"
    by (elim exE conjE) (rule that, assumption+)
  from n have name: "name = ''q1''" by (simp split: if_splits)
  with sp have "visited = [(''q2'', ''SELECT :a'')]"
    by (auto simp: append_eq_Cons_conv Cons_eq_append_conv)
  with v r have "s' ''q2'' = Some \<lparr>Raw = ''SELECT :a'', OrdinalQuery = ''SELECT $1'', Mapping = [(''a'', 1)]\<rparr>"
    by simp
  moreover from k have "s' ''q1'' = ?s ''q1''" by simp
  ultimately show ?thesis using d r l name by simp
qed

end
